theory Spec2Isabelle
  imports Complex_Main
begin

section \<open>Data model of z-hnsw.cpp\<close>

text \<open>
  The C++ \<open>float\<close> is modelled by \<open>real\<close> (no rounding, no NaN).  The nodes allocated
  with \<open>new\<close> are the list \<open>heap\<close>, and a \<open>Node*\<close> is the index of its node in that list:
  node \<open>n\<close> is the node of the \<open>n\<close>-th allocation.  The address that \<open>new\<close> returned for
  node \<open>n\<close> is \<open>addr n\<close>; the order of the addresses is not fixed by the program, so \<open>addr\<close>
  is a parameter of every function that compares node pointers.  \<open>graph.nodes\<close> is the vector of node pointers.  Every function that can
  run into undefined behaviour (an index past the end of a \<open>std::vector\<close>, \<open>top()\<close> of an
  empty queue, a float outside the range of \<open>int\<close>) or into an exception of the standard
  library returns \<open>None\<close> there.  \<open>size_t\<close> has 64 bits.
\<close>

record Point =
  coordinates :: "real list"
  label :: string

text \<open>The constructor of \<open>Point\<close> (line 17).\<close>

definition Point_ctor :: "real list \<Rightarrow> string \<Rightarrow> Point" where
  "Point_ctor coords lbl = \<lparr>coordinates = coords, label = lbl\<rparr>"

record Node =
  point :: Point
  neighbors :: "nat list list"

record 'g HNSW =
  heap :: "Node list"
  nodes :: "nat list"
  maxLevel :: int
  maxNeighbors :: int
  efConstruction :: int
  levelMult :: real
  generator :: 'g

type_synonym entry = "real \<times> nat"

definition size_t :: "int \<Rightarrow> nat" where
  "size_t i = nat (i mod 2 ^ 64)"

subsection \<open>euclideanDistance\<close>

text \<open>The loop runs over the indices of \<open>p1\<close> and reads \<open>p2\<close> at the same index.\<close>

fun sumSquares :: "real list \<Rightarrow> real list \<Rightarrow> real \<Rightarrow> real option" where
  "sumSquares [] ys distance = Some distance"
| "sumSquares (x # xs) [] distance = None"
| "sumSquares (x # xs) (y # ys) distance = sumSquares xs ys (distance + (x - y) * (x - y))"

definition euclideanDistance :: "Point \<Rightarrow> Point \<Rightarrow> real option" where
  "euclideanDistance p1 p2 =
     map_option sqrt (sumSquares (coordinates p1) (coordinates p2) 0)"

subsection \<open>std::priority_queue of (distance, node) pairs\<close>

text \<open>
  \<open>pair_lt\<close> is \<open>operator<\<close> of \<open>std::pair\<close>.  A queue is the list of its elements with
  \<open>top()\<close> at the head: \<open>pq_push (pair_lt addr)\<close> is \<open>emplace\<close> on the default (max) queue,
  \<open>pq_push (pair_gt addr)\<close> on the queue with \<open>std::greater\<close>; \<open>pop()\<close> is \<open>tl\<close>.  Pairs with equal
  distances compare the addresses of their nodes.
\<close>

definition pair_lt :: "(nat \<Rightarrow> nat) \<Rightarrow> entry \<Rightarrow> entry \<Rightarrow> bool" where
  "pair_lt addr x y = (fst x < fst y \<or> (\<not> fst y < fst x \<and> addr (snd x) < addr (snd y)))"

definition pair_gt :: "(nat \<Rightarrow> nat) \<Rightarrow> entry \<Rightarrow> entry \<Rightarrow> bool" where
  "pair_gt addr x y = pair_lt addr y x"

fun pq_push :: "(entry \<Rightarrow> entry \<Rightarrow> bool) \<Rightarrow> entry \<Rightarrow> entry list \<Rightarrow> entry list" where
  "pq_push cmp x [] = [x]"
| "pq_push cmp x (y # ys) = (if cmp y x then x # y # ys else y # pq_push cmp x ys)"

subsection \<open>HNSW::searchLayer\<close>

text \<open>The \<open>for\<close> loop over the neighbours of the popped node (lines 124-137).\<close>

fun visitNeighbors ::
  "(nat \<Rightarrow> nat) \<Rightarrow> Node list \<Rightarrow> Point \<Rightarrow> nat \<Rightarrow> nat list \<Rightarrow> entry list \<Rightarrow> entry list \<Rightarrow> nat set \<Rightarrow> real
     \<Rightarrow> (entry list \<times> entry list \<times> nat set \<times> real) option" where
  "visitNeighbors addr hp pt ef [] candidates topCandidates visited lowerBound =
     Some (candidates, topCandidates, visited, lowerBound)"
| "visitNeighbors addr hp pt ef (neighbor # rest) candidates topCandidates visited lowerBound =
     (if neighbor \<in> visited
      then visitNeighbors addr hp pt ef rest candidates topCandidates visited lowerBound
      else if length hp \<le> neighbor then None
      else (case euclideanDistance pt (point (hp ! neighbor)) of
          None \<Rightarrow> None
        | Some d \<Rightarrow>
            if length topCandidates < ef \<or> d < lowerBound
            then (if ef < length (pq_push (pair_lt addr) (d, neighbor) topCandidates)
                  then (case tl (pq_push (pair_lt addr) (d, neighbor) topCandidates) of
                      [] \<Rightarrow> None
                    | t # ts \<Rightarrow>
                        visitNeighbors addr hp pt ef rest
                          (pq_push (pair_gt addr) (d, neighbor) candidates)
                          (t # ts) (insert neighbor visited) (fst t))
                  else visitNeighbors addr hp pt ef rest
                         (pq_push (pair_gt addr) (d, neighbor) candidates)
                         (pq_push (pair_lt addr) (d, neighbor) topCandidates)
                         (insert neighbor visited) lowerBound)
            else visitNeighbors addr hp pt ef rest candidates topCandidates
                   (insert neighbor visited) lowerBound))"

text \<open>The \<open>while\<close> loop (lines 116-138).\<close>

function searchLoop ::
  "(nat \<Rightarrow> nat) \<Rightarrow> Node list \<Rightarrow> Point \<Rightarrow> nat \<Rightarrow> nat \<Rightarrow> entry list \<Rightarrow> entry list \<Rightarrow> nat set \<Rightarrow> real
     \<Rightarrow> entry list option" where
  "searchLoop addr hp pt level ef [] topCandidates visited lowerBound = Some topCandidates"
| "searchLoop addr hp pt level ef (currPair # candidates) topCandidates visited lowerBound =
     (if lowerBound < fst currPair then Some topCandidates
      else if length hp \<le> snd currPair then None
      else if length (neighbors (hp ! snd currPair)) \<le> level then None
      else (case visitNeighbors addr hp pt ef (neighbors (hp ! snd currPair) ! level)
                   candidates topCandidates visited lowerBound of
          None \<Rightarrow> None
        | Some (candidates', topCandidates', visited', lowerBound') \<Rightarrow>
            searchLoop addr hp pt level ef candidates' topCandidates' visited' lowerBound'))"
  by pat_completeness auto


text \<open>
  Each pass of the loop either stops or pops one candidate and pushes only nodes that were
  not visited before, so the number of unvisited nodes plus the size of the frontier
  decreases: the loop terminates on every graph.
\<close>

lemma length_pq_push: "length (pq_push cmp x xs) = Suc (length xs)"
  by (induction xs) auto

lemma visitNeighbors_measure:
  "visitNeighbors addr hp pt ef nbs c t v lb = Some (c', t', v', lb') \<Longrightarrow>
   card ({..<length hp} - v') + length c' \<le> card ({..<length hp} - v) + length c"
proof (induction nbs arbitrary: c t v lb)
  case Nil
  then show ?case by simp
next
  case (Cons nb nbs)
  show ?case
  proof (cases "nb \<in> v")
    case True
    with Cons show ?thesis by simp
  next
    case False
    with Cons.prems have lt: "nb < length hp" by (auto split: if_splits)
    have dec: "Suc (card ({..<length hp} - insert nb v)) = card ({..<length hp} - v)"
    proof -
      have "{..<length hp} - v = insert nb ({..<length hp} - insert nb v)"
        using lt False by auto
      moreover have "nb \<notin> {..<length hp} - insert nb v" by simp
      ultimately show ?thesis
        by (metis card_insert_disjoint finite_Diff finite_lessThan)
    qed
    from Cons.prems False lt show ?thesis
      using dec
      by (auto split: option.splits if_splits list.splits dest!: Cons.IH simp: length_pq_push)
  qed
qed

termination searchLoop
  apply (relation "measure (\<lambda>(addr, hp, pt, level, ef, c, t, v, lb). card ({..<length hp} - v) + length c)")
   apply simp
  apply (auto dest!: visitNeighbors_measure)
  done

text \<open>\<open>searchLayer\<close> (lines 106-141); \<open>level\<close> and \<open>ef\<close> are \<open>int\<close> in the source.\<close>

definition searchLayer ::
  "(nat \<Rightarrow> nat) \<Rightarrow> Node list \<Rightarrow> Point \<Rightarrow> nat \<Rightarrow> int \<Rightarrow> int \<Rightarrow> entry list option" where
  "searchLayer addr hp pt enterPoint level ef =
     (if length hp \<le> enterPoint then None
      else (case euclideanDistance pt (point (hp ! enterPoint)) of
          None \<Rightarrow> None
        | Some lowerBound \<Rightarrow>
            searchLoop addr hp pt (size_t level) (size_t ef)
              (pq_push (pair_gt addr) (lowerBound, enterPoint) [])
              (pq_push (pair_lt addr) (lowerBound, enterPoint) [])
              {enterPoint} lowerBound))"

subsection \<open>HNSW::selectNeighbors\<close>

text \<open>The \<open>while\<close> loop (lines 146-153); the bound is \<open>static_cast<size_t>(maxNeighbors)\<close>.\<close>

fun pickNeighbors :: "nat \<Rightarrow> entry list \<Rightarrow> nat list \<Rightarrow> nat set \<Rightarrow> nat list" where
  "pickNeighbors m [] nbrs selected = nbrs"
| "pickNeighbors m (t # topCandidates) nbrs selected =
     (if length nbrs < m
      then (if snd t \<notin> selected
            then pickNeighbors m topCandidates (nbrs @ [snd t]) (insert (snd t) selected)
            else pickNeighbors m topCandidates nbrs selected)
      else nbrs)"

text \<open>\<open>a->neighbors[level].push_back(b)\<close>.\<close>

definition push_neighbor :: "Node list \<Rightarrow> nat \<Rightarrow> nat \<Rightarrow> nat \<Rightarrow> Node list option" where
  "push_neighbor hp a level b =
     (if a < length hp \<and> level < length (neighbors (hp ! a))
      then Some (hp[a := (hp ! a)\<lparr>neighbors :=
                  (neighbors (hp ! a))[level := neighbors (hp ! a) ! level @ [b]]\<rparr>])
      else None)"

text \<open>The \<open>for\<close> loop (lines 154-157).\<close>

fun linkNeighbors :: "Node list \<Rightarrow> nat \<Rightarrow> nat \<Rightarrow> nat list \<Rightarrow> Node list option" where
  "linkNeighbors hp newNode level [] = Some hp"
| "linkNeighbors hp newNode level (neighbor # rest) =
     (case push_neighbor hp newNode level neighbor of
        None \<Rightarrow> None
      | Some hp1 \<Rightarrow>
          (case push_neighbor hp1 neighbor level newNode of
             None \<Rightarrow> None
           | Some hp2 \<Rightarrow> linkNeighbors hp2 newNode level rest))"

definition selectNeighbors :: "Node list \<Rightarrow> int \<Rightarrow> nat \<Rightarrow> entry list \<Rightarrow> int \<Rightarrow> Node list option" where
  "selectNeighbors hp maxNbrs newNode topCandidates level =
     linkNeighbors hp newNode (size_t level) (pickNeighbors (size_t maxNbrs) topCandidates [] {})"

subsection \<open>HNSW::insertNode, HNSW::insert and HNSW::search\<close>

text \<open>
  The greedy descent \<open>while (level > bound) { enterPoint = searchLayer(point, enterPoint,
  level, 1).top().second; --level; }\<close> of lines 86-89 (\<open>bound\<close> is the top layer of the
  new node) and of lines 178-181 (\<open>bound\<close> is 0).
\<close>

function descend ::
  "(nat \<Rightarrow> nat) \<Rightarrow> Node list \<Rightarrow> Point \<Rightarrow> nat \<Rightarrow> int \<Rightarrow> int \<Rightarrow> (nat \<times> int) option" where
  "descend addr hp pt enterPoint level bound =
     (if bound < level
      then (case searchLayer addr hp pt enterPoint level 1 of
          None \<Rightarrow> None
        | Some topCandidates \<Rightarrow>
            (case topCandidates of
               [] \<Rightarrow> None
             | t # ts \<Rightarrow> descend addr hp pt (snd t) (level - 1) bound))
      else Some (enterPoint, level))"
  by pat_completeness auto
termination
  by (relation "measure (\<lambda>(addr, hp, pt, enterPoint, level, bound). nat (level - bound))") auto

text \<open>The loop \<open>for (int l = level; l >= 0; --l)\<close> of lines 92-95.\<close>

function linkLayers ::
  "(nat \<Rightarrow> nat) \<Rightarrow> Node list \<Rightarrow> int \<Rightarrow> int \<Rightarrow> nat \<Rightarrow> nat \<Rightarrow> int \<Rightarrow> Node list option" where
  "linkLayers addr hp maxNbrs efConstr newNode enterPoint l =
     (if 0 \<le> l
      then (case searchLayer addr hp (point (hp ! newNode)) enterPoint l efConstr of
          None \<Rightarrow> None
        | Some topCandidates \<Rightarrow>
            (case selectNeighbors hp maxNbrs newNode topCandidates l of
               None \<Rightarrow> None
             | Some hp' \<Rightarrow> linkLayers addr hp' maxNbrs efConstr newNode enterPoint (l - 1)))
      else Some hp)"
  by pat_completeness auto
termination
  by (relation "measure (\<lambda>(addr, hp, maxNbrs, efConstr, newNode, enterPoint, l). nat (l + 1))") auto

declare descend.simps [simp del]
declare linkLayers.simps [simp del]

text \<open>\<open>insertNode\<close> (lines 76-103); \<open>newNode\<close> points to an allocated node.\<close>

definition insertNode :: "(nat \<Rightarrow> nat) \<Rightarrow> 'g HNSW \<Rightarrow> nat \<Rightarrow> 'g HNSW option" where
  "insertNode addr h newNode =
     (if length (heap h) \<le> newNode then None
      else if nodes h = [] then Some (h\<lparr>nodes := nodes h @ [newNode]\<rparr>)
      else (case descend addr (heap h) (point (heap h ! newNode)) (hd (nodes h)) (maxLevel h)
                   (int (length (neighbors (heap h ! newNode))) - 1) of
          None \<Rightarrow> None
        | Some (enterPoint, level) \<Rightarrow>
            (case linkLayers addr (heap h) (maxNeighbors h) (efConstruction h) newNode enterPoint level of
               None \<Rightarrow> None
             | Some hp' \<Rightarrow>
                 Some (h\<lparr>heap := hp',
                         maxLevel :=
                           (if maxLevel h < int (length (neighbors (hp' ! newNode))) - 1
                            then int (length (neighbors (hp' ! newNode))) - 1
                            else maxLevel h),
                         nodes := nodes h @ [newNode]\<rparr>))))"

text \<open>
  \<open>static_cast<int>\<close> of a float truncates toward zero and is undefined outside the range
  of \<open>int\<close>.
\<close>

definition float_to_int :: "real \<Rightarrow> int option" where
  "float_to_int x =
     (if - (2 ^ 31) \<le> (if 0 \<le> x then \<lfloor>x\<rfloor> else \<lceil>x\<rceil>) \<and> (if 0 \<le> x then \<lfloor>x\<rfloor> else \<lceil>x\<rceil>) < 2 ^ 31
      then Some (if 0 \<le> x then \<lfloor>x\<rfloor> else \<lceil>x\<rceil>)
      else None)"

text \<open>
  \<open>getRandomLevel\<close> (lines 70-74).  \<open>draw\<close> is \<open>uniform_real_distribution<float>(0.0, 1.0)\<close>
  applied to the engine: it returns the number drawn and the next state of the engine.
  At \<open>r = 0\<close> the logarithm is infinite and the cast undefined.
\<close>

definition getRandomLevel :: "('g \<Rightarrow> real \<times> 'g) \<Rightarrow> 'g HNSW \<Rightarrow> (int \<times> 'g HNSW) option" where
  "getRandomLevel draw h =
     (if fst (draw (generator h)) \<le> 0 then None
      else (case float_to_int (- ln (fst (draw (generator h))) * levelMult h) of
          None \<Rightarrow> None
        | Some level \<Rightarrow> Some (level, h\<lparr>generator := snd (draw (generator h))\<rparr>)))"

text \<open>
  \<open>new Node(point, level)\<close>: the node has \<open>level + 1\<close> empty neighbour lists; a negative
  size throws \<open>std::length_error\<close>.  The new node is appended to the heap.
\<close>

definition new_Node :: "'g HNSW \<Rightarrow> Point \<Rightarrow> int \<Rightarrow> (nat \<times> 'g HNSW) option" where
  "new_Node h pt level =
     (if level + 1 < 0 then None
      else Some (length (heap h),
                 h\<lparr>heap := heap h @ [\<lparr>point = pt, neighbors = replicate (nat (level + 1)) []\<rparr>]\<rparr>))"

text \<open>\<open>HNSW::insert\<close> (lines 165-169).\<close>

definition insert_point ::
  "(nat \<Rightarrow> nat) \<Rightarrow> ('g \<Rightarrow> real \<times> 'g) \<Rightarrow> 'g HNSW \<Rightarrow> Point \<Rightarrow> 'g HNSW option" where
  "insert_point addr draw h pt =
     (case getRandomLevel draw h of
        None \<Rightarrow> None
      | Some (level, h1) \<Rightarrow>
          (case new_Node h1 pt level of
             None \<Rightarrow> None
           | Some (newNode, h2) \<Rightarrow> insertNode addr h2 newNode))"

text \<open>\<open>HNSW::search\<close> (lines 171-193).\<close>

definition search :: "(nat \<Rightarrow> nat) \<Rightarrow> 'g HNSW \<Rightarrow> Point \<Rightarrow> int \<Rightarrow> Point list option" where
  "search addr h query k =
     (if nodes h = [] then Some []
      else (case descend addr (heap h) query (hd (nodes h)) (maxLevel h) 0 of
          None \<Rightarrow> None
        | Some (enterPoint, level) \<Rightarrow>
            (case searchLayer addr (heap h) query enterPoint 0 k of
               None \<Rightarrow> None
             | Some topCandidates \<Rightarrow> Some (map (\<lambda>t. point (heap h ! snd t)) topCandidates))))"

text \<open>
  The constructor (lines 162-163).  \<open>engine\<close> is the state of a default-constructed
  \<open>std::default_random_engine\<close>, the same for every default-constructed engine of the
  library: the constructor takes no seed.
\<close>

definition HNSW_ctor :: "'g \<Rightarrow> int \<Rightarrow> int \<Rightarrow> real \<Rightarrow> 'g HNSW" where
  "HNSW_ctor engine maxNbrs efConstr mult =
     \<lparr>heap = [], nodes = [], maxLevel = 0, maxNeighbors = maxNbrs,
      efConstruction = efConstr, levelMult = mult, generator = engine\<rparr>"

text \<open>A sequence of calls of \<open>insert\<close>, as in the loop of \<open>main\<close> (lines 298-300).\<close>

fun insert_all ::
  "(nat \<Rightarrow> nat) \<Rightarrow> ('g \<Rightarrow> real \<times> 'g) \<Rightarrow> 'g HNSW \<Rightarrow> Point list \<Rightarrow> 'g HNSW option" where
  "insert_all addr draw h [] = Some h"
| "insert_all addr draw h (pt # pts) =
     (case insert_point addr draw h pt of
        None \<Rightarrow> None
      | Some h' \<Rightarrow> insert_all addr draw h' pts)"

section \<open>Invariants\<close>

definition desc :: "(nat \<Rightarrow> nat) \<Rightarrow> entry list \<Rightarrow> bool" where
  "desc addr xs = sorted_wrt (\<lambda>a b. \<not> pair_lt addr a b) xs"

definition search_inv ::
  "(nat \<Rightarrow> nat) \<Rightarrow> Node list \<Rightarrow> Point \<Rightarrow> nat \<Rightarrow> entry list \<Rightarrow> entry list \<Rightarrow> nat set \<Rightarrow> bool" where
  "search_inv addr hp pt ef c t v \<longleftrightarrow>
     (\<forall>e \<in> set c \<union> set t. snd e < length hp \<and> snd e \<in> v \<and>
        euclideanDistance pt (point (hp ! snd e)) = Some (fst e)) \<and>
     desc addr t \<and> distinct (map snd t) \<and> t \<noteq> [] \<and> length t \<le> max ef 1"

definition neighborSet :: "Node list \<Rightarrow> nat \<Rightarrow> nat \<Rightarrow> nat set" where
  "neighborSet hp a l =
     (if a < length hp \<and> l < length (neighbors (hp ! a)) then set (neighbors (hp ! a) ! l) else {})"

definition symmetric :: "Node list \<Rightarrow> bool" where
  "symmetric hp \<longleftrightarrow> (\<forall>a b l. b \<in> neighborSet hp a l \<longrightarrow> a \<in> neighborSet hp b l)"

text \<open>The top layer of every allocated node, in allocation order.\<close>

definition levels_of :: "'g HNSW \<Rightarrow> int list" where
  "levels_of h = map (\<lambda>n. int (length (neighbors n)) - 1) (heap h)"

section \<open>Concrete runs\<close>

text \<open>
  For concrete runs the engine is the list of the levels to come: \<open>draw_levels\<close> draws
  \<open>exp (- l)\<close> for the next level \<open>l\<close>, which \<open>getRandomLevel\<close> with multiplier 1 turns
  into \<open>l\<close>.  With multiplier 0 every draw gives level 0.
\<close>

text \<open>
  Three allocators: \<open>addr_up\<close> hands out ascending addresses, \<open>addr_down\<close> hands out the
  first eight nodes in descending order (as a free list that is reused last-in first-out
  does), and \<open>addr_shift\<close> is ascending from another base with another stride.
\<close>

definition addr_up :: "nat \<Rightarrow> nat" where
  "addr_up n = n"

definition addr_down :: "nat \<Rightarrow> nat" where
  "addr_down n = (if n \<le> 7 then 7 - n else n)"

definition addr_shift :: "nat \<Rightarrow> nat" where
  "addr_shift n = 4096 + 64 * n"

definition draw_levels :: "int list \<Rightarrow> real \<times> int list" where
  "draw_levels g = (exp (- real_of_int (hd g)), tl g)"

text \<open>
  \<open>HNSW(1, 200, 0.0)\<close> after \<open>insert(E = (1))\<close>, then after \<open>insert(A = (5))\<close>, then
  after \<open>insert(C = (0))\<close>, all on level 0.
\<close>

definition index_E :: "int list HNSW" where
  "index_E =
     \<lparr>heap = [\<lparr>point = Point_ctor [1] ''E'', neighbors = [[]]\<rparr>],
      nodes = [0], maxLevel = 0, maxNeighbors = 1, efConstruction = 200,
      levelMult = 0, generator = [0]\<rparr>"

definition index_EA :: "int list HNSW" where
  "index_EA =
     \<lparr>heap = [\<lparr>point = Point_ctor [1] ''E'', neighbors = [[1]]\<rparr>,
              \<lparr>point = Point_ctor [5] ''A'', neighbors = [[0]]\<rparr>],
      nodes = [0, 1], maxLevel = 0, maxNeighbors = 1, efConstruction = 200,
      levelMult = 0, generator = []\<rparr>"

definition index_EAC :: "int list HNSW" where
  "index_EAC =
     \<lparr>heap = [\<lparr>point = Point_ctor [1] ''E'', neighbors = [[1]]\<rparr>,
              \<lparr>point = Point_ctor [5] ''A'', neighbors = [[0, 2]]\<rparr>,
              \<lparr>point = Point_ctor [0] ''C'', neighbors = [[1]]\<rparr>],
      nodes = [0, 1, 2], maxLevel = 0, maxNeighbors = 1, efConstruction = 200,
      levelMult = 0, generator = []\<rparr>"

text \<open>\<open>HNSW(4, 200, 0.0)\<close> after inserting the point \<open>P = (2)\<close> twice.\<close>

definition index_PP :: "int list HNSW" where
  "index_PP =
     \<lparr>heap = [\<lparr>point = Point_ctor [2] ''P'', neighbors = [[1]]\<rparr>,
              \<lparr>point = Point_ctor [2] ''P'', neighbors = [[0]]\<rparr>],
      nodes = [0, 1], maxLevel = 0, maxNeighbors = 4, efConstruction = 200,
      levelMult = 0, generator = []\<rparr>"

text \<open>
  \<open>HNSW(4, 200, 0.0)\<close> after \<open>insert(A = (1, 2, 3, 4))\<close>, and then after
  \<open>insert(X = (1, 2))\<close>.
\<close>

definition index_A4 :: "int list HNSW" where
  "index_A4 =
     \<lparr>heap = [\<lparr>point = Point_ctor [1, 2, 3, 4] ''A'', neighbors = [[]]\<rparr>],
      nodes = [0], maxLevel = 0, maxNeighbors = 4, efConstruction = 200,
      levelMult = 0, generator = [0]\<rparr>"

definition index_A4X :: "int list HNSW" where
  "index_A4X =
     \<lparr>heap = [\<lparr>point = Point_ctor [1, 2, 3, 4] ''A'', neighbors = [[1]]\<rparr>,
              \<lparr>point = Point_ctor [1, 2] ''X'', neighbors = [[0]]\<rparr>],
      nodes = [0, 1], maxLevel = 0, maxNeighbors = 4, efConstruction = 200,
      levelMult = 0, generator = []\<rparr>"

text \<open>
  \<open>HNSW(4, 200, 1.0)\<close> after \<open>insert(E)\<close> on level 0 and \<open>insert(A)\<close> on level 1, and
  after a single \<open>insert(E)\<close> on level 2.
\<close>

definition index_L01 :: "int list HNSW" where
  "index_L01 =
     \<lparr>heap = [\<lparr>point = Point_ctor [1] ''E'', neighbors = [[1]]\<rparr>,
              \<lparr>point = Point_ctor [5] ''A'', neighbors = [[0], []]\<rparr>],
      nodes = [0, 1], maxLevel = 1, maxNeighbors = 4, efConstruction = 200,
      levelMult = 1, generator = []\<rparr>"

definition index_L2 :: "int list HNSW" where
  "index_L2 =
     \<lparr>heap = [\<lparr>point = Point_ctor [1] ''E'', neighbors = [[], [], []]\<rparr>],
      nodes = [0], maxLevel = 0, maxNeighbors = 4, efConstruction = 200,
      levelMult = 1, generator = []\<rparr>"

text \<open>
  \<open>HNSW(4, 200, 0.0)\<close> after \<open>insert(A = (5))\<close>, \<open>insert(B = (-5))\<close> and \<open>insert(E = (1))\<close>.
\<close>

definition index_ABE :: "int list HNSW" where
  "index_ABE =
     \<lparr>heap = [\<lparr>point = Point_ctor [5] ''A'', neighbors = [[1, 2]]\<rparr>,
              \<lparr>point = Point_ctor [- 5] ''B'', neighbors = [[0, 2]]\<rparr>,
              \<lparr>point = Point_ctor [1] ''E'', neighbors = [[1, 0]]\<rparr>],
      nodes = [0, 1, 2], maxLevel = 0, maxNeighbors = 4, efConstruction = 200,
      levelMult = 0, generator = []\<rparr>"

section \<open>Priority queues and the layer search\<close>

lemma set_pq_push: "set (pq_push cmp x xs) = insert x (set xs)"
  by (induction xs) auto

lemma pq_push_not_Nil: "pq_push cmp x xs \<noteq> []"
  by (cases xs) auto

lemma pair_lt_asym: "pair_lt addr x y \<Longrightarrow> \<not> pair_lt addr y x"
  by (auto simp: pair_lt_def)

lemma pair_lt_trans: "pair_lt addr x y \<Longrightarrow> pair_lt addr y z \<Longrightarrow> pair_lt addr x z"
  by (auto simp: pair_lt_def)

lemma desc_pq_push: "desc addr xs \<Longrightarrow> desc addr (pq_push (pair_lt addr) x xs)"
proof (induction xs)
  case Nil
  then show ?case by (simp add: desc_def)
next
  case (Cons y ys)
  show ?case
  proof (cases "pair_lt addr y x")
    case True
    have "\<not> pair_lt addr x z" if "z \<in> set (y # ys)" for z
    proof
      assume xz: "pair_lt addr x z"
      from that Cons.prems have "z = y \<or> \<not> pair_lt addr y z"
        by (auto simp: desc_def)
      with True xz show False
        using pair_lt_asym pair_lt_trans by blast
    qed
    with True Cons.prems show ?thesis by (simp add: desc_def)
  next
    case False
    with Cons show ?thesis by (auto simp: desc_def set_pq_push)
  qed
qed

lemma desc_tl: "desc addr xs \<Longrightarrow> desc addr (tl xs)"
  by (cases xs) (auto simp: desc_def)

lemma desc_fst: "desc addr xs \<Longrightarrow> sorted_wrt (\<lambda>a b. fst b \<le> fst a) xs"
  unfolding desc_def
  by (erule sorted_wrt_mono_rel[rotated]) (auto simp: pair_lt_def)

lemma distinct_snd_pq_push:
  "distinct (map snd (pq_push cmp x xs)) \<longleftrightarrow> snd x \<notin> snd ` set xs \<and> distinct (map snd xs)"
  by (induction xs) (auto simp: set_pq_push)

lemma visitNeighbors_inv:
  "search_inv addr hp pt ef c t v \<Longrightarrow>
   visitNeighbors addr hp pt ef nbs c t v lb = Some (c', t', v', lb') \<Longrightarrow>
   search_inv addr hp pt ef c' t' v'"
proof (induction nbs arbitrary: c t v lb)
  case Nil
  then show ?case by simp
next
  case (Cons nb nbs)
  show ?case
  proof (cases "nb \<in> v")
    case True
    with Cons show ?thesis by simp
  next
    case False
    with Cons.prems(2) have lt: "nb < length hp" by (auto split: if_splits)
    from Cons.prems(2) False lt obtain d where d: "euclideanDistance pt (point (hp ! nb)) = Some d"
      by (auto split: option.splits)
    have fresh: "nb \<notin> snd ` set t" using Cons.prems(1) False by (auto simp: search_inv_def)
    have grow: "search_inv addr hp pt ef c t (insert nb v)"
      using Cons.prems(1) by (auto simp: search_inv_def)
    show ?thesis
    proof (cases "length t < ef \<or> d < lb")
      case push: True
      let ?c = "pq_push (pair_gt addr) (d, nb) c"
      let ?t = "pq_push (pair_lt addr) (d, nb) t"
      have ent: "\<forall>e \<in> set ?c \<union> set ?t. snd e < length hp \<and> snd e \<in> insert nb v \<and>
          euclideanDistance pt (point (hp ! snd e)) = Some (fst e)"
        using Cons.prems(1) lt d by (auto simp: search_inv_def set_pq_push)
      have dt: "desc addr ?t" using Cons.prems(1) by (simp add: search_inv_def desc_pq_push)
      have di: "distinct (map snd ?t)"
        using Cons.prems(1) fresh by (simp add: search_inv_def distinct_snd_pq_push)
      show ?thesis
      proof (cases "ef < length ?t")
        case pop: True
        then obtain x xs where tl: "tl ?t = x # xs"
          using Cons.prems(2) False lt d push by (auto split: list.splits)
        have sub: "set (tl ?t) \<subseteq> set ?t" by (metis list.set_sel(2) subsetI tl_Nil)
        have "search_inv addr hp pt ef ?c (x # xs) (insert nb v)"
          unfolding search_inv_def
        proof (intro conjI)
          show "\<forall>e\<in>set ?c \<union> set (x # xs). snd e < length hp \<and> snd e \<in> insert nb v \<and>
              euclideanDistance pt (point (hp ! snd e)) = Some (fst e)"
            using ent sub tl by auto
          show "desc addr (x # xs)" using desc_tl[OF dt] tl by simp
          show "distinct (map snd (x # xs))" using di tl by (metis distinct_tl map_tl)
          show "x # xs \<noteq> []" by simp
          have "length (x # xs) = length t" using tl by (metis length_pq_push length_tl diff_Suc_1)
          then show "length (x # xs) \<le> max ef 1" using Cons.prems(1) by (simp add: search_inv_def)
        qed
        moreover have "visitNeighbors addr hp pt ef nbs ?c (x # xs) (insert nb v) (fst x) = Some (c', t', v', lb')"
          using Cons.prems(2) False lt d push pop tl by simp
        ultimately show ?thesis using Cons.IH by blast
      next
        case nopop: False
        have "search_inv addr hp pt ef ?c ?t (insert nb v)"
          unfolding search_inv_def using ent dt di nopop by (auto simp: length_pq_push pq_push_not_Nil)
        moreover have "visitNeighbors addr hp pt ef nbs ?c ?t (insert nb v) lb = Some (c', t', v', lb')"
          using Cons.prems(2) False lt d push nopop by simp
        ultimately show ?thesis using Cons.IH by blast
      qed
    next
      case nopush: False
      then have "visitNeighbors addr hp pt ef nbs c t (insert nb v) lb = Some (c', t', v', lb')"
        using Cons.prems(2) False lt d by simp
      with grow show ?thesis using Cons.IH by blast
    qed
  qed
qed

lemma searchLoop_inv:
  "search_inv addr hp pt ef c t v \<Longrightarrow> searchLoop addr hp pt level ef c t v lb = Some r \<Longrightarrow>
   search_inv addr hp pt ef [] r UNIV"
proof (induction addr hp pt level ef c t v lb rule: searchLoop.induct)
  case (1 addr hp pt level ef t v lb)
  then show ?case by (auto simp: search_inv_def)
next
  case (2 addr hp pt level ef currPair c t v lb)
  show ?case
  proof (cases "lb < fst currPair")
    case True
    with 2 show ?thesis by (auto simp: search_inv_def)
  next
    case False
    with "2.prems"(2) have a: "\<not> length hp \<le> snd currPair"
      and b: "\<not> length (neighbors (hp ! snd currPair)) \<le> level"
      by (auto split: if_splits)
    from "2.prems"(2) False a b obtain c' t' v' lb' where
      vis: "visitNeighbors addr hp pt ef (neighbors (hp ! snd currPair) ! level) c t v lb = Some (c', t', v', lb')"
      and rec: "searchLoop addr hp pt level ef c' t' v' lb' = Some r"
      by (auto split: option.splits)
    have "search_inv addr hp pt ef c t v" using "2.prems"(1) by (auto simp: search_inv_def)
    from visitNeighbors_inv[OF this vis] have "search_inv addr hp pt ef c' t' v'" .
    with "2.IH"[OF False a b vis] rec show ?thesis by simp
  qed
qed

lemma searchLayer_inv:
  assumes "searchLayer addr hp pt ep level ef = Some r"
  shows "search_inv addr hp pt (size_t ef) [] r UNIV"
proof -
  from assms have lt: "ep < length hp" by (auto simp: searchLayer_def split: if_splits)
  from assms lt obtain lb where lb: "euclideanDistance pt (point (hp ! ep)) = Some lb"
    and loop: "searchLoop addr hp pt (size_t level) (size_t ef) [(lb, ep)] [(lb, ep)] {ep} lb = Some r"
    by (auto simp: searchLayer_def split: option.splits)
  have "search_inv addr hp pt (size_t ef) [(lb, ep)] [(lb, ep)] {ep}"
    using lt lb by (simp add: search_inv_def desc_def)
  from searchLoop_inv[OF this loop] show ?thesis .
qed

lemma searchLayer_results:
  assumes "searchLayer addr hp pt ep level ef = Some r"
  shows "map (\<lambda>t. euclideanDistance pt (point (hp ! snd t))) r = map (\<lambda>t. Some (fst t)) r"
    and "sorted_wrt (\<lambda>a b. fst b \<le> fst a) r"
    and "r \<noteq> []" and "length r \<le> max (size_t ef) 1" and "length r \<le> length hp"
proof -
  note inv = searchLayer_inv[OF assms, unfolded search_inv_def]
  from inv show "map (\<lambda>t. euclideanDistance pt (point (hp ! snd t))) r = map (\<lambda>t. Some (fst t)) r"
    by simp
  from inv have "desc addr r" by simp
  then show "sorted_wrt (\<lambda>a b. fst b \<le> fst a) r" by (rule desc_fst)
  from inv show "r \<noteq> []" by simp
  from inv show "length r \<le> max (size_t ef) 1" by simp
  from inv have "distinct (map snd r)" and "set (map snd r) \<subseteq> {..<length hp}" by auto
  then have "card (set (map snd r)) \<le> card {..<length hp}" 
    by (intro card_mono) auto
  moreover have "card (set (map snd r)) = length r"
    using \<open>distinct (map snd r)\<close> distinct_card[of "map snd r"] by simp
  ultimately show "length r \<le> length hp" by simp
qed


section \<open>Structure of the store under insertion\<close>

lemma push_neighbor_Some:
  assumes "push_neighbor hp a l b = Some hp'"
  shows "a < length hp" and "l < length (neighbors (hp ! a))"
    and "length hp' = length hp"
    and "point (hp' ! x) = point (hp ! x)"
    and "length (neighbors (hp' ! x)) = length (neighbors (hp ! x))"
    and "neighbors (hp' ! a) ! l = neighbors (hp ! a) ! l @ [b]"
    and "x \<noteq> a \<or> j \<noteq> l \<Longrightarrow> neighbors (hp' ! x) ! j = neighbors (hp ! x) ! j"
proof -
  from assms show a: "a < length hp" and l: "l < length (neighbors (hp ! a))"
    by (auto simp: push_neighbor_def split: if_splits)
  from assms a l have hp': "hp' = hp[a := (hp ! a)\<lparr>neighbors :=
      (neighbors (hp ! a))[l := neighbors (hp ! a) ! l @ [b]]\<rparr>]"
    by (simp add: push_neighbor_def)
  show "length hp' = length hp" by (simp add: hp')
  show "point (hp' ! x) = point (hp ! x)"
    using a by (cases "x = a") (simp_all add: hp')
  show "length (neighbors (hp' ! x)) = length (neighbors (hp ! x))"
    using a by (cases "x = a") (simp_all add: hp')
  show "neighbors (hp' ! a) ! l = neighbors (hp ! a) ! l @ [b]"
    using a l by (simp add: hp')
  show "neighbors (hp' ! x) ! j = neighbors (hp ! x) ! j" if "x \<noteq> a \<or> j \<noteq> l"
  proof (cases "x = a")
    case True
    with that have "j \<noteq> l" by simp
    with True a show ?thesis by (simp add: hp')
  next
    case False
    then show ?thesis by (simp add: hp')
  qed
qed

lemma push_neighbor_neighborSet:
  assumes "push_neighbor hp a l b = Some hp'"
  shows "neighborSet hp' a l = insert b (neighborSet hp a l)"
    and "x \<noteq> a \<or> j \<noteq> l \<Longrightarrow> neighborSet hp' x j = neighborSet hp x j"
proof -
  note len = push_neighbor_Some(3)[OF assms]
  show "neighborSet hp' a l = insert b (neighborSet hp a l)"
    using push_neighbor_Some(1,2,6)[OF assms] push_neighbor_Some(5)[OF assms, of a] len
    by (simp add: neighborSet_def)
  show "neighborSet hp' x j = neighborSet hp x j" if "x \<noteq> a \<or> j \<noteq> l"
    using push_neighbor_Some(7)[OF assms that] push_neighbor_Some(5)[OF assms, of x] len
    by (simp add: neighborSet_def)
qed

lemma linkNeighbors_Some:
  assumes "linkNeighbors hp a l nbs = Some hp'"
  shows "length hp' = length hp"
    and "point (hp' ! x) = point (hp ! x)"
    and "length (neighbors (hp' ! x)) = length (neighbors (hp ! x))"
  using assms
proof (induction nbs arbitrary: hp)
  case Nil
  { case 1 then show ?case by simp }
  { case 2 then show ?case by simp }
  { case 3 then show ?case by simp }
next
  case (Cons nb nbs)
  { case 1 then show ?case
      by (auto split: option.splits simp: Cons.IH(1) push_neighbor_Some(3)) }
  { case 2 then show ?case
      by (auto split: option.splits simp: Cons.IH(2) push_neighbor_Some(4)) }
  { case 3 then show ?case
      by (auto split: option.splits simp: Cons.IH(3) push_neighbor_Some(5)) }
qed

lemma linkLayers_Some:
  "linkLayers addr hp m efc a ep l = Some hp' \<Longrightarrow>
   length hp' = length hp \<and> (\<forall>x. point (hp' ! x) = point (hp ! x) \<and>
     length (neighbors (hp' ! x)) = length (neighbors (hp ! x)))"
proof (induction addr hp m efc a ep l rule: linkLayers.induct)
  case (1 addr hp m efc a ep l)
  show ?case
  proof (cases "0 \<le> l")
    case True
    with "1.prems" obtain topC hp1 where
      sl: "searchLayer addr hp (point (hp ! a)) ep l efc = Some topC"
      and sel: "selectNeighbors hp m a topC l = Some hp1"
      and rec: "linkLayers addr hp1 m efc a ep (l - 1) = Some hp'"
      by (subst (asm) linkLayers.simps) (auto split: option.splits)
    from "1.IH"[OF True sl sel rec] linkNeighbors_Some[OF sel[unfolded selectNeighbors_def]]
    show ?thesis by simp
  next
    case False
    with "1.prems" show ?thesis by (subst (asm) linkLayers.simps) simp
  qed
qed

lemma insertNode_Some:
  assumes "insertNode addr h a = Some h'"
  shows "nodes h' = nodes h @ [a]" and "length (heap h') = length (heap h)"
    and "map point (heap h') = map point (heap h)"
    and "maxNeighbors h' = maxNeighbors h" and "efConstruction h' = efConstruction h"
    and "levelMult h' = levelMult h" and "generator h' = generator h"
proof -
  have "nodes h' = nodes h @ [a] \<and> length (heap h') = length (heap h) \<and>
    map point (heap h') = map point (heap h) \<and>
    maxNeighbors h' = maxNeighbors h \<and> efConstruction h' = efConstruction h \<and>
    levelMult h' = levelMult h \<and> generator h' = generator h"
  proof (cases "nodes h = []")
    case True
    with assms show ?thesis by (auto simp: insertNode_def split: if_splits)
  next
    case False
    with assms obtain ep level hp' where
      ll: "linkLayers addr (heap h) (maxNeighbors h) (efConstruction h) a ep level = Some hp'"
      and h': "h' = h\<lparr>heap := hp',
                     maxLevel := (if maxLevel h < int (length (neighbors (hp' ! a))) - 1
                            then int (length (neighbors (hp' ! a))) - 1 else maxLevel h),
                     nodes := nodes h @ [a]\<rparr>"
      by (auto simp: insertNode_def split: if_splits option.splits)
    from linkLayers_Some[OF ll] have "length hp' = length (heap h)"
      and "map point hp' = map point (heap h)"
      by (simp_all add: list_eq_iff_nth_eq)
    then show ?thesis by (simp add: h')
  qed
  then show "nodes h' = nodes h @ [a]" and "length (heap h') = length (heap h)"
    and "map point (heap h') = map point (heap h)"
    and "maxNeighbors h' = maxNeighbors h" and "efConstruction h' = efConstruction h"
    and "levelMult h' = levelMult h" and "generator h' = generator h"
    by simp_all
qed

lemma insert_point_Some:
  assumes "insert_point addr draw h pt = Some h'"
  shows "nodes h' = nodes h @ [length (heap h)]"
    and "length (heap h') = Suc (length (heap h))"
    and "map point (heap h') = map point (heap h) @ [pt]"
    and "maxNeighbors h' = maxNeighbors h" and "efConstruction h' = efConstruction h"
    and "levelMult h' = levelMult h"
proof -
  from assms obtain level h1 a h2 where
    g: "getRandomLevel draw h = Some (level, h1)"
    and n: "new_Node h1 pt level = Some (a, h2)"
    and i: "insertNode addr h2 a = Some h'"
    by (auto simp: insert_point_def split: option.splits)
  from g have h1: "h1 = h\<lparr>generator := snd (draw (generator h))\<rparr>"
    by (auto simp: getRandomLevel_def split: if_splits option.splits)
  from n have a: "a = length (heap h1)"
    and h2: "h2 = h1\<lparr>heap := heap h1 @ [\<lparr>point = pt, neighbors = replicate (nat (level + 1)) []\<rparr>]\<rparr>"
    by (auto simp: new_Node_def split: if_splits)
  from insertNode_Some[OF i] h1 a h2
  show "nodes h' = nodes h @ [length (heap h)]"
    and "length (heap h') = Suc (length (heap h))"
    and "map point (heap h') = map point (heap h) @ [pt]"
    and "maxNeighbors h' = maxNeighbors h" and "efConstruction h' = efConstruction h"
    and "levelMult h' = levelMult h"
    by simp_all
qed


section \<open>Symmetry of the edges\<close>

lemma push_neighbor_mem:
  assumes "push_neighbor hp a l b = Some hp'"
  shows "y \<in> neighborSet hp' x j \<longleftrightarrow> y \<in> neighborSet hp x j \<or> (x = a \<and> j = l \<and> y = b)"
proof (cases "x = a \<and> j = l")
  case True
  with push_neighbor_neighborSet(1)[OF assms] show ?thesis by auto
next
  case False
  then have "x \<noteq> a \<or> j \<noteq> l" by blast
  from push_neighbor_neighborSet(2)[OF assms this] False show ?thesis by blast
qed

lemma add_edge_symmetric:
  assumes "symmetric hp" and "push_neighbor hp a l b = Some hp1"
    and "push_neighbor hp1 b l a = Some hp2"
  shows "symmetric hp2"
  using assms(1)
  unfolding symmetric_def push_neighbor_mem[OF assms(3)] push_neighbor_mem[OF assms(2)]
  by blast

lemma linkNeighbors_symmetric:
  "symmetric hp \<Longrightarrow> linkNeighbors hp a l nbs = Some hp' \<Longrightarrow> symmetric hp'"
proof (induction nbs arbitrary: hp)
  case Nil
  then show ?case by simp
next
  case (Cons nb nbs)
  from Cons.prems(2) obtain hp1 hp2 where
    1: "push_neighbor hp a l nb = Some hp1" and 2: "push_neighbor hp1 nb l a = Some hp2"
    and 3: "linkNeighbors hp2 a l nbs = Some hp'"
    by (auto split: option.splits)
  from add_edge_symmetric[OF Cons.prems(1) 1 2] 3 show ?case by (rule Cons.IH)
qed

lemma linkLayers_symmetric:
  "symmetric hp \<Longrightarrow> linkLayers addr hp m efc a ep l = Some hp' \<Longrightarrow> symmetric hp'"
proof (induction addr hp m efc a ep l rule: linkLayers.induct)
  case (1 addr hp m efc a ep l)
  show ?case
  proof (cases "0 \<le> l")
    case True
    with "1.prems"(2) obtain topC hp1 where
      sl: "searchLayer addr hp (point (hp ! a)) ep l efc = Some topC"
      and sel: "selectNeighbors hp m a topC l = Some hp1"
      and rec: "linkLayers addr hp1 m efc a ep (l - 1) = Some hp'"
      by (subst (asm) linkLayers.simps) (auto split: option.splits)
    from sel "1.prems"(1) have "symmetric hp1"
      unfolding selectNeighbors_def by (rule linkNeighbors_symmetric[rotated])
    from "1.IH"[OF True sl sel this rec] show ?thesis .
  next
    case False
    with "1.prems" show ?thesis by (subst (asm) linkLayers.simps) simp
  qed
qed

lemma insertNode_symmetric:
  assumes "symmetric (heap h)" and "insertNode addr h a = Some h'"
  shows "symmetric (heap h')"
proof (cases "nodes h = []")
  case True
  with assms show ?thesis by (auto simp: insertNode_def split: if_splits)
next
  case False
  with assms(2) obtain ep level hp' where
    ll: "linkLayers addr (heap h) (maxNeighbors h) (efConstruction h) a ep level = Some hp'"
    and h': "heap h' = hp'"
    by (auto simp: insertNode_def split: if_splits option.splits)
  from linkLayers_symmetric[OF assms(1) ll] h' show ?thesis by simp
qed

lemma neighborSet_new_Node:
  "neighborSet (hp @ [\<lparr>point = pt, neighbors = replicate n []\<rparr>]) x j = neighborSet hp x j"
  by (auto simp: neighborSet_def nth_append)

lemma insert_point_symmetric:
  assumes "symmetric (heap h)" and "insert_point addr draw h pt = Some h'"
  shows "symmetric (heap h')"
proof -
  from assms(2) obtain level h1 a h2 where
    g: "getRandomLevel draw h = Some (level, h1)"
    and n: "new_Node h1 pt level = Some (a, h2)"
    and i: "insertNode addr h2 a = Some h'"
    by (auto simp: insert_point_def split: option.splits)
  from g have h1: "heap h1 = heap h"
    by (auto simp: getRandomLevel_def split: if_splits option.splits)
  from n have h2: "heap h2 = heap h1 @ [\<lparr>point = pt, neighbors = replicate (nat (level + 1)) []\<rparr>]"
    by (auto simp: new_Node_def split: if_splits)
  have "symmetric (heap h2)"
    using assms(1) unfolding symmetric_def h2 h1 neighborSet_new_Node .
  from insertNode_symmetric[OF this i] show ?thesis .
qed

lemma insert_all_symmetric:
  "symmetric (heap h) \<Longrightarrow> insert_all addr draw h pts = Some h' \<Longrightarrow> symmetric (heap h')"
proof (induction pts arbitrary: h)
  case Nil
  then show ?case by simp
next
  case (Cons pt pts)
  from Cons.prems(2) obtain h1 where
    1: "insert_point addr draw h pt = Some h1" and 2: "insert_all addr draw h1 pts = Some h'"
    by (auto split: option.splits)
  from insert_point_symmetric[OF Cons.prems(1) 1] 2 show ?case by (rule Cons.IH)
qed


section \<open>Nodes the layer search cannot reach\<close>

lemma visitNeighbors_visited:
  "visitNeighbors addr hp pt ef nbs c t v lb = Some (c', t', v', lb') \<Longrightarrow> v' \<subseteq> v \<union> set nbs"
proof (induction nbs arbitrary: c t v lb)
  case Nil
  then show ?case by simp
next
  case (Cons nb nbs)
  show ?case
  proof (cases "nb \<in> v")
    case True
    with Cons.prems have "visitNeighbors addr hp pt ef nbs c t v lb = Some (c', t', v', lb')" by simp
    from Cons.IH[OF this] show ?thesis by auto
  next
    case False
    with Cons.prems obtain c1 t1 lb1 where
      "visitNeighbors addr hp pt ef nbs c1 t1 (insert nb v) lb1 = Some (c', t', v', lb')"
      by (auto split: if_splits option.splits list.splits)
    from Cons.IH[OF this] show ?thesis by auto
  qed
qed

lemma searchLoop_closed:
  "search_inv addr hp pt ef c t v \<Longrightarrow> v \<subseteq> S \<Longrightarrow>
   searchLoop addr hp pt level ef c t v lb = Some r \<Longrightarrow>
   \<forall>n \<in> S. neighborSet hp n level \<subseteq> S \<Longrightarrow> snd ` set r \<subseteq> S"
proof (induction addr hp pt level ef c t v lb rule: searchLoop.induct)
  case (1 addr hp pt level ef t v lb)
  then show ?case by (auto simp: search_inv_def)
next
  case (2 addr hp pt level ef currPair c t v lb)
  show ?case
  proof (cases "lb < fst currPair")
    case True
    with 2 show ?thesis by (auto simp: search_inv_def)
  next
    case False
    with "2.prems"(3) have a: "\<not> length hp \<le> snd currPair"
      and b: "\<not> length (neighbors (hp ! snd currPair)) \<le> level"
      by (auto split: if_splits)
    from "2.prems"(3) False a b obtain c' t' v' lb' where
      vis: "visitNeighbors addr hp pt ef (neighbors (hp ! snd currPair) ! level) c t v lb = Some (c', t', v', lb')"
      and rec: "searchLoop addr hp pt level ef c' t' v' lb' = Some r"
      by (auto split: option.splits)
    have inv: "search_inv addr hp pt ef c t v" using "2.prems"(1) by (auto simp: search_inv_def)
    from visitNeighbors_inv[OF this vis] have inv': "search_inv addr hp pt ef c' t' v'" .
    have "snd currPair \<in> S" using "2.prems"(1,2) by (auto simp: search_inv_def)
    with "2.prems"(4) have "neighborSet hp (snd currPair) level \<subseteq> S" by blast
    moreover have "neighborSet hp (snd currPair) level = set (neighbors (hp ! snd currPair) ! level)"
      using a b by (simp add: neighborSet_def)
    ultimately have "set (neighbors (hp ! snd currPair) ! level) \<subseteq> S" by simp
    with visitNeighbors_visited[OF vis] "2.prems"(2) have "v' \<subseteq> S" by blast
    from "2.IH"[OF False a b vis refl refl refl inv' this rec "2.prems"(4)] show ?thesis by simp
  qed
qed

lemma searchLayer_closed:
  assumes "searchLayer addr hp pt ep level ef = Some r" and "ep \<in> S"
    and "\<forall>n \<in> S. neighborSet hp n (size_t level) \<subseteq> S"
  shows "snd ` set r \<subseteq> S"
proof -
  from assms(1) have lt: "ep < length hp" by (auto simp: searchLayer_def split: if_splits)
  from assms(1) lt obtain lb where lb: "euclideanDistance pt (point (hp ! ep)) = Some lb"
    and loop: "searchLoop addr hp pt (size_t level) (size_t ef) [(lb, ep)] [(lb, ep)] {ep} lb = Some r"
    by (auto simp: searchLayer_def split: option.splits)
  have "search_inv addr hp pt (size_t ef) [(lb, ep)] [(lb, ep)] {ep}"
    using lt lb by (simp add: search_inv_def desc_def)
  from searchLoop_closed[OF this _ loop assms(3)] assms(2) show ?thesis by simp
qed

lemma descend_closed:
  "descend addr hp pt ep level bound = Some (ep', level') \<Longrightarrow> ep \<in> S \<Longrightarrow>
   \<forall>l. \<forall>n \<in> S. neighborSet hp n l \<subseteq> S \<Longrightarrow>
   ep' \<in> S \<and> level' = min level bound"
proof (induction addr hp pt ep level bound rule: descend.induct)
  case (1 addr hp pt ep level bound)
  show ?case
  proof (cases "bound < level")
    case True
    with "1.prems"(1) obtain topC t ts where
      sl: "searchLayer addr hp pt ep level 1 = Some topC" and tc: "topC = t # ts"
      and rec: "descend addr hp pt (snd t) (level - 1) bound = Some (ep', level')"
      by (subst (asm) descend.simps) (auto split: option.splits list.splits)
    from searchLayer_closed[OF sl "1.prems"(2)] "1.prems"(3) tc have "snd t \<in> S" by auto
    from "1.IH"[OF True sl tc rec this "1.prems"(3)] True show ?thesis by auto
  next
    case False
    with "1.prems" show ?thesis by (subst (asm) descend.simps) auto
  qed
qed

lemma pickNeighbors_props:
  "length nbrs \<le> m \<Longrightarrow> length (pickNeighbors m t nbrs sel) \<le> m"
  "set (pickNeighbors m t nbrs sel) \<subseteq> set nbrs \<union> snd ` set t"
  by (induction m t nbrs sel rule: pickNeighbors.induct) auto

lemma linkNeighbors_own_lists:
  "a \<notin> set nbs \<Longrightarrow> linkNeighbors hp a idx nbs = Some hp' \<Longrightarrow>
   (nbs \<noteq> [] \<longrightarrow> neighbors (hp' ! a) ! idx = neighbors (hp ! a) ! idx @ nbs) \<and>
   (\<forall>j. j \<noteq> idx \<longrightarrow> neighbors (hp' ! a) ! j = neighbors (hp ! a) ! j)"
proof (induction nbs arbitrary: hp)
  case Nil
  then show ?case by simp
next
  case (Cons nb nbs)
  from Cons.prems(2) obtain hp1 hp2 where
    1: "push_neighbor hp a idx nb = Some hp1" and 2: "push_neighbor hp1 nb idx a = Some hp2"
    and 3: "linkNeighbors hp2 a idx nbs = Some hp'"
    by (auto split: option.splits)
  from Cons.prems(1) have ne: "a \<noteq> nb" and notin: "a \<notin> set nbs" by auto
  have idx: "neighbors (hp2 ! a) ! idx = neighbors (hp ! a) ! idx @ [nb]"
    using push_neighbor_Some(6)[OF 1] push_neighbor_Some(7)[OF 2, of a idx] ne by simp
  have oth: "neighbors (hp2 ! a) ! j = neighbors (hp ! a) ! j" if "j \<noteq> idx" for j
    using push_neighbor_Some(7)[OF 1, of a j] push_neighbor_Some(7)[OF 2, of a j] ne that by simp
  from Cons.IH[OF notin 3] have
    ih1: "nbs \<noteq> [] \<longrightarrow> neighbors (hp' ! a) ! idx = neighbors (hp2 ! a) ! idx @ nbs"
    and ih2: "\<forall>j. j \<noteq> idx \<longrightarrow> neighbors (hp' ! a) ! j = neighbors (hp2 ! a) ! j"
    by blast+
  have "neighbors (hp' ! a) ! idx = neighbors (hp ! a) ! idx @ nb # nbs"
  proof (cases "nbs = []")
    case True
    with 3 idx show ?thesis by simp
  next
    case False
    with ih1 idx show ?thesis by simp
  qed
  with ih2 oth show ?case by simp
qed


section \<open>Degree of a new node\<close>

lemma size_t_nat: "0 \<le> l \<Longrightarrow> l < 2 ^ 64 \<Longrightarrow> size_t l = nat l"
  by (simp add: size_t_def)

lemma linkLayers_degree:
  "linkLayers addr hp m efc a ep l = Some hp' \<Longrightarrow> symmetric hp \<Longrightarrow> a < length hp \<Longrightarrow> ep \<noteq> a \<Longrightarrow>
   l < 2 ^ 64 \<Longrightarrow> \<forall>j. int j \<le> l \<longrightarrow> neighborSet hp a j = {} \<Longrightarrow>
   \<forall>j < length (neighbors (hp ! a)). length (neighbors (hp ! a) ! j) \<le> size_t m \<Longrightarrow>
   \<forall>j < length (neighbors (hp' ! a)). length (neighbors (hp' ! a) ! j) \<le> size_t m"
proof (induction addr hp m efc a ep l rule: linkLayers.induct)
  case (1 addr hp m efc a ep l)
  show ?case
  proof (cases "0 \<le> l")
    case False
    with "1.prems"(1) have "hp' = hp" by (subst (asm) linkLayers.simps) simp
    with "1.prems"(7) show ?thesis by simp
  next
    case True
    with "1.prems"(1) obtain topC hp1 where
      sl: "searchLayer addr hp (point (hp ! a)) ep l efc = Some topC"
      and sel: "selectNeighbors hp m a topC l = Some hp1"
      and rec: "linkLayers addr hp1 m efc a ep (l - 1) = Some hp'"
      by (subst (asm) linkLayers.simps) (auto split: option.splits)
    define idx where "idx = nat l"
    have idx: "size_t l = idx" using True "1.prems"(5) by (simp add: size_t_nat idx_def)
    define picks where "picks = pickNeighbors (size_t m) topC [] {}"
    from sel have ln: "linkNeighbors hp a idx picks = Some hp1"
      by (simp add: selectNeighbors_def idx picks_def)
    have empty: "neighborSet hp a idx = {}"
      using "1.prems"(6) True by (simp add: idx_def)
    have "\<forall>n \<in> - {a}. neighborSet hp n (size_t l) \<subseteq> - {a}"
    proof (intro ballI subsetI)
      fix n x assume "n \<in> - {a}" and x: "x \<in> neighborSet hp n (size_t l)"
      show "x \<in> - {a}"
      proof
        assume "x \<in> {a}"
        with x idx have "a \<in> neighborSet hp n idx" by simp
        with "1.prems"(2) have "n \<in> neighborSet hp a idx" by (auto simp: symmetric_def)
        with empty show False by simp
      qed
    qed
    from searchLayer_closed[OF sl _ this] "1.prems"(4) have "snd ` set topC \<subseteq> - {a}" by simp
    with pickNeighbors_props(2)[of "size_t m" topC "[]" "{}"] have notin: "a \<notin> set picks"
      by (auto simp: picks_def)
    have short: "length picks \<le> size_t m"
      unfolding picks_def by (rule pickNeighbors_props(1)) simp
    note own = linkNeighbors_own_lists[OF notin ln]
    note str = linkNeighbors_Some[OF ln]
    have sym1: "symmetric hp1" using "1.prems"(2) ln by (rule linkNeighbors_symmetric)
    have a1: "a < length hp1" using "1.prems"(3) str(1) by simp
    have iso1: "\<forall>j. int j \<le> l - 1 \<longrightarrow> neighborSet hp1 a j = {}"
    proof (intro allI impI)
      fix j assume j: "int j \<le> l - 1"
      then have "j \<noteq> idx" by (auto simp: idx_def)
      with own have "neighbors (hp1 ! a) ! j = neighbors (hp ! a) ! j" by blast
      then have "neighborSet hp1 a j = neighborSet hp a j"
        using str(1) str(3)[of a] by (simp add: neighborSet_def)
      with "1.prems"(6) j show "neighborSet hp1 a j = {}" by simp
    qed
    have deg1: "\<forall>j < length (neighbors (hp1 ! a)). length (neighbors (hp1 ! a) ! j) \<le> size_t m"
    proof (intro allI impI)
      fix j assume j: "j < length (neighbors (hp1 ! a))"
      then have j': "j < length (neighbors (hp ! a))" using str(3)[of a] by simp
      show "length (neighbors (hp1 ! a) ! j) \<le> size_t m"
      proof (cases "j = idx \<and> picks \<noteq> []")
        case True
        with own have "neighbors (hp1 ! a) ! j = neighbors (hp ! a) ! idx @ picks" by blast
        moreover have "neighbors (hp ! a) ! idx = []"
          using empty j' True "1.prems"(3) by (simp add: neighborSet_def)
        ultimately show ?thesis using short by simp
      next
        case False
        have "neighbors (hp1 ! a) ! j = neighbors (hp ! a) ! j"
        proof (cases "picks = []")
          case True
          with ln show ?thesis by simp
        next
          case False
          with \<open>\<not> (j = idx \<and> picks \<noteq> [])\<close> have "j \<noteq> idx" by simp
          with own show ?thesis by blast
        qed
        with "1.prems"(7) j' show ?thesis by simp
      qed
    qed
    from "1.IH"[OF True sl sel rec sym1 a1 "1.prems"(4) _ iso1 deg1] "1.prems"(5)
    show ?thesis by simp
  qed
qed

lemma insertNode_degree:
  assumes "insertNode addr h a = Some h'" and "symmetric (heap h)" and "a \<notin> set (nodes h)"
    and "\<forall>j. neighborSet (heap h) a j = {}"
    and "int (length (neighbors (heap h ! a))) \<le> 2 ^ 64"
  shows "\<forall>j < length (neighbors (heap h' ! a)). length (neighbors (heap h' ! a) ! j) \<le> size_t (maxNeighbors h)"
proof -
  from assms(1) have a: "a < length (heap h)" by (auto simp: insertNode_def split: if_splits)
  have empty: "\<forall>j < length (neighbors (heap h ! a)). neighbors (heap h ! a) ! j = []"
  proof (intro allI impI)
    fix j assume "j < length (neighbors (heap h ! a))"
    with a have "neighborSet (heap h) a j = set (neighbors (heap h ! a) ! j)"
      by (simp add: neighborSet_def)
    with assms(4) show "neighbors (heap h ! a) ! j = []" by simp
  qed
  show ?thesis
  proof (cases "nodes h = []")
    case True
    with assms(1) a have "heap h' = heap h" by (auto simp: insertNode_def)
    with empty show ?thesis by simp
  next
    case False
    with assms(1) a obtain ep level hp' where
      de: "descend addr (heap h) (point (heap h ! a)) (hd (nodes h)) (maxLevel h)
             (int (length (neighbors (heap h ! a))) - 1) = Some (ep, level)"
      and ll: "linkLayers addr (heap h) (maxNeighbors h) (efConstruction h) a ep level = Some hp'"
      and h': "heap h' = hp'"
      by (auto simp: insertNode_def split: option.splits)
    have hd: "hd (nodes h) \<in> - {a}" using False assms(3) by (cases "nodes h") auto
    have closed: "\<forall>l. \<forall>n \<in> - {a}. neighborSet (heap h) n l \<subseteq> - {a}"
    proof (intro allI ballI subsetI)
      fix l n x assume "x \<in> neighborSet (heap h) n l"
      show "x \<in> - {a}"
      proof
        assume "x \<in> {a}"
        with \<open>x \<in> neighborSet (heap h) n l\<close> assms(2) have "n \<in> neighborSet (heap h) a l"
          by (auto simp: symmetric_def)
        with assms(4) show False by simp
      qed
    qed
    from descend_closed[OF de hd closed] have ep: "ep \<noteq> a"
      and lv: "level = min (maxLevel h) (int (length (neighbors (heap h ! a))) - 1)" by auto
    from lv assms(5) have small: "level < 2 ^ 64" by simp
    have deg: "\<forall>j < length (neighbors (heap h ! a)). length (neighbors (heap h ! a) ! j) \<le> size_t (maxNeighbors h)"
      using empty by simp
    from linkLayers_degree[OF ll assms(2) a ep small _ deg] assms(4) h' show ?thesis by simp
  qed
qed


section \<open>Indexes built by a sequence of insertions\<close>

lemma getRandomLevel_Some:
  assumes "getRandomLevel draw h = Some (level, h1)"
  shows "h1 = h\<lparr>generator := snd (draw (generator h))\<rparr>" and "- (2 ^ 31) \<le> level" and "level < 2 ^ 31"
    and "float_to_int (- ln (fst (draw (generator h))) * levelMult h) = Some level"
  using assms
  by (auto simp: getRandomLevel_def float_to_int_def split: if_splits option.splits)

lemma insert_point_unfold:
  assumes "insert_point addr draw h pt = Some h'"
  obtains level where
    "getRandomLevel draw h = Some (level, h\<lparr>generator := snd (draw (generator h))\<rparr>)"
    "0 \<le> level + 1" "level < 2 ^ 31"
    "insertNode addr (h\<lparr>generator := snd (draw (generator h)),
        heap := heap h @ [\<lparr>point = pt, neighbors = replicate (nat (level + 1)) []\<rparr>]\<rparr>)
      (length (heap h)) = Some h'"
proof -
  from assms obtain level h1 a h2 where
    g: "getRandomLevel draw h = Some (level, h1)"
    and n: "new_Node h1 pt level = Some (a, h2)"
    and i: "insertNode addr h2 a = Some h'"
    by (auto simp: insert_point_def split: option.splits)
  note g' = getRandomLevel_Some[OF g]
  from n have "0 \<le> level + 1" and "a = length (heap h1)"
    and "h2 = h1\<lparr>heap := heap h1 @ [\<lparr>point = pt, neighbors = replicate (nat (level + 1)) []\<rparr>]\<rparr>"
    by (auto simp: new_Node_def split: if_splits)
  with g g' i that[of level] show ?thesis by simp
qed

lemma insertNode_maxLevel:
  assumes "insertNode addr h a = Some h'"
  shows "maxLevel h \<le> maxLevel h'"
  using assms by (auto simp: insertNode_def split: if_splits option.splits)

lemma insert_point_maxLevel:
  assumes "insert_point addr draw h pt = Some h'"
  shows "maxLevel h \<le> maxLevel h'"
proof -
  from assms obtain level where
    "insertNode addr (h\<lparr>generator := snd (draw (generator h)),
        heap := heap h @ [\<lparr>point = pt, neighbors = replicate (nat (level + 1)) []\<rparr>]\<rparr>)
      (length (heap h)) = Some h'"
    by (rule insert_point_unfold)
  from insertNode_maxLevel[OF this] show ?thesis by simp
qed

lemma insert_all_Some:
  assumes "insert_all addr draw h pts = Some h'"
  shows "nodes h' = nodes h @ [length (heap h) ..< length (heap h) + length pts]"
    and "map point (heap h') = map point (heap h) @ pts"
    and "maxNeighbors h' = maxNeighbors h" and "efConstruction h' = efConstruction h"
    and "levelMult h' = levelMult h" and "maxLevel h \<le> maxLevel h'"
proof -
  have "nodes h' = nodes h @ [length (heap h) ..< length (heap h) + length pts] \<and>
    map point (heap h') = map point (heap h) @ pts \<and>
    maxNeighbors h' = maxNeighbors h \<and> efConstruction h' = efConstruction h \<and>
    levelMult h' = levelMult h \<and> maxLevel h \<le> maxLevel h'"
    using assms
  proof (induction pts arbitrary: h)
    case Nil
    then show ?case by simp
  next
    case (Cons pt pts)
    then obtain h1 where 1: "insert_point addr draw h pt = Some h1"
      and 2: "insert_all addr draw h1 pts = Some h'"
      by (auto split: option.splits)
    have "[length (heap h) ..< length (heap h) + length (pt # pts)] =
        length (heap h) # [Suc (length (heap h)) ..< length (heap h) + length (pt # pts)]"
      by (rule upt_conv_Cons) simp
    with Cons.IH[OF 2] insert_point_Some[OF 1] insert_point_maxLevel[OF 1] show ?case
      by (simp del: upt_Suc)
  qed
  then show "nodes h' = nodes h @ [length (heap h) ..< length (heap h) + length pts]"
    and "map point (heap h') = map point (heap h) @ pts"
    and "maxNeighbors h' = maxNeighbors h" and "efConstruction h' = efConstruction h"
    and "levelMult h' = levelMult h" and "maxLevel h \<le> maxLevel h'"
    by simp_all
qed

lemma built_index:
  assumes "insert_all addr draw (HNSW_ctor engine maxNbrs efConstr mult) pts = Some h"
  shows "nodes h = [0 ..< length pts]" and "map point (heap h) = pts"
    and "length (heap h) = length pts"
    and "maxNeighbors h = maxNbrs" and "efConstruction h = efConstr" and "levelMult h = mult"
    and "0 \<le> maxLevel h" and "symmetric (heap h)"
proof -
  note s = insert_all_Some[OF assms]
  from s(1) show "nodes h = [0 ..< length pts]" by (simp add: HNSW_ctor_def)
  from s(2) show p: "map point (heap h) = pts" by (simp add: HNSW_ctor_def)
  from p show "length (heap h) = length pts" by (metis length_map)
  from s(3-6) show "maxNeighbors h = maxNbrs" and "efConstruction h = efConstr"
    and "levelMult h = mult" and "0 \<le> maxLevel h"
    by (simp_all add: HNSW_ctor_def)
  have "symmetric (heap (HNSW_ctor engine maxNbrs efConstr mult))"
    by (simp add: symmetric_def neighborSet_def HNSW_ctor_def)
  from insert_all_symmetric[OF this assms] show "symmetric (heap h)" .
qed


section \<open>Vectors of different lengths\<close>

lemma sumSquares_None: "sumSquares xs ys acc = None \<longleftrightarrow> length ys < length xs"
  by (induction xs ys acc rule: sumSquares.induct) auto

lemma euclideanDistance_None:
  "euclideanDistance p1 p2 = None \<longleftrightarrow> length (coordinates p2) < length (coordinates p1)"
  by (simp add: euclideanDistance_def sumSquares_None)

lemma searchLayer_too_long:
  "length (coordinates (point (hp ! ep))) < length (coordinates pt) \<Longrightarrow>
   searchLayer addr hp pt ep level ef = None"
proof -
  assume "length (coordinates (point (hp ! ep))) < length (coordinates pt)"
  then have "euclideanDistance pt (point (hp ! ep)) = None"
    by (simp add: euclideanDistance_None)
  then show ?thesis by (simp add: searchLayer_def)
qed


section \<open>Sampled levels\<close>

lemma insertNode_layers:
  assumes "insertNode addr h a = Some h'"
  shows "map (\<lambda>n. length (neighbors n)) (heap h') = map (\<lambda>n. length (neighbors n)) (heap h)"
proof (cases "nodes h = []")
  case True
  with assms show ?thesis by (auto simp: insertNode_def split: if_splits)
next
  case False
  with assms obtain ep level hp' where
    ll: "linkLayers addr (heap h) (maxNeighbors h) (efConstruction h) a ep level = Some hp'"
    and h': "heap h' = hp'"
    by (auto simp: insertNode_def split: if_splits option.splits)
  from linkLayers_Some[OF ll] h' show ?thesis by (simp add: list_eq_iff_nth_eq)
qed

lemma insert_point_levels:
  assumes "insert_point addr draw h pt = Some h'"
  shows "\<exists>level. float_to_int (- ln (fst (draw (generator h))) * levelMult h) = Some level \<and>
           levels_of h' = levels_of h @ [level]"
    and "generator h' = snd (draw (generator h))"
proof -
  from assms obtain level where
    g: "getRandomLevel draw h = Some (level, h\<lparr>generator := snd (draw (generator h))\<rparr>)"
    and lv: "0 \<le> level + 1"
    and ins: "insertNode addr (h\<lparr>generator := snd (draw (generator h)),
        heap := heap h @ [\<lparr>point = pt, neighbors = replicate (nat (level + 1)) []\<rparr>]\<rparr>)
      (length (heap h)) = Some h'"
    by (rule insert_point_unfold)
  from insertNode_layers[OF ins] have eq:
    "map (\<lambda>n. length (neighbors n)) (heap h') =
     map (\<lambda>n. length (neighbors n)) (heap h) @ [nat (level + 1)]"
    by simp
  have "levels_of h' = map (\<lambda>k. int k - 1) (map (\<lambda>n. length (neighbors n)) (heap h'))"
    by (simp add: levels_of_def comp_def)
  also have "\<dots> = map (\<lambda>k. int k - 1) (map (\<lambda>n. length (neighbors n)) (heap h) @ [nat (level + 1)])"
    by (simp only: eq)
  also have "\<dots> = levels_of h @ [level]"
    using lv by (simp add: levels_of_def comp_def)
  finally have "levels_of h' = levels_of h @ [level]" .
  with getRandomLevel_Some(4)[OF g]
  show "\<exists>level. float_to_int (- ln (fst (draw (generator h))) * levelMult h) = Some level \<and>
           levels_of h' = levels_of h @ [level]" by blast
  from insertNode_Some(7)[OF ins] show "generator h' = snd (draw (generator h))" by simp
qed

lemma levels_two_runs:
  "length pts1 = length pts2 \<Longrightarrow> generator a = generator b \<Longrightarrow> levelMult a = levelMult b \<Longrightarrow>
   levels_of a = levels_of b \<Longrightarrow>
   insert_all addr1 draw a pts1 = Some a' \<Longrightarrow> insert_all addr2 draw b pts2 = Some b' \<Longrightarrow>
   generator a' = generator b' \<and> levels_of a' = levels_of b'"
proof (induction pts1 pts2 arbitrary: a b rule: list_induct2)
  case Nil
  then show ?case by simp
next
  case (Cons p1 pts1 p2 pts2)
  from Cons.prems(4) obtain a1 where a1: "insert_point addr1 draw a p1 = Some a1"
    and a2: "insert_all addr1 draw a1 pts1 = Some a'" by (auto split: option.splits)
  from Cons.prems(5) obtain b1 where b1: "insert_point addr2 draw b p2 = Some b1"
    and b2: "insert_all addr2 draw b1 pts2 = Some b'" by (auto split: option.splits)
  from insert_point_levels[OF a1] insert_point_levels[OF b1] Cons.prems(1-3)
  have "generator a1 = generator b1" and "levels_of a1 = levels_of b1" by auto
  moreover from insert_point_Some(6)[OF a1] insert_point_Some(6)[OF b1] Cons.prems(2)
  have "levelMult a1 = levelMult b1" by simp
  ultimately show ?case using a2 b2 Cons.IH by blast
qed

section \<open>Allocators that order the addresses alike\<close>

lemma pair_gt_cong: "pair_lt addr1 = pair_lt addr2 \<Longrightarrow> pair_gt addr1 = pair_gt addr2"
  by (intro ext) (simp add: pair_gt_def)

lemma pair_lt_same_order:
  assumes "\<forall>m n. addr1 m < addr1 n \<longleftrightarrow> addr2 m < addr2 n"
  shows "pair_lt addr1 = pair_lt addr2"
  using assms by (intro ext) (simp add: pair_lt_def)

lemma visitNeighbors_cong:
  assumes "pair_lt addr1 = pair_lt addr2"
  shows "visitNeighbors addr1 hp pt ef nbs c t v lb = visitNeighbors addr2 hp pt ef nbs c t v lb"
proof (induction nbs arbitrary: c t v lb)
  case Nil
  show ?case by simp
next
  case (Cons nb nbs)
  show ?case
    by (simp only: visitNeighbors.simps assms pair_gt_cong[OF assms] Cons.IH
          cong: if_cong option.case_cong list.case_cong)
qed

lemma searchLoop_cong:
  "pair_lt addr = pair_lt addr2 \<Longrightarrow>
   searchLoop addr hp pt level ef c t v lb = searchLoop addr2 hp pt level ef c t v lb"
proof (induction addr hp pt level ef c t v lb rule: searchLoop.induct)
  case (1 addr hp pt level ef t v lb)
  show ?case by simp
next
  case (2 addr hp pt level ef currPair c t v lb)
  note vc = visitNeighbors_cong[OF "2.prems", of hp pt ef "neighbors (hp ! snd currPair) ! level" c t v lb]
  show ?case
  proof (cases "lb < fst currPair")
    case True
    then show ?thesis by simp
  next
    case n1: False
    show ?thesis
    proof (cases "length hp \<le> snd currPair")
      case True
      with n1 show ?thesis by simp
    next
      case n2: False
      show ?thesis
      proof (cases "length (neighbors (hp ! snd currPair)) \<le> level")
        case True
        with n1 n2 show ?thesis by simp
      next
        case n3: False
        show ?thesis
        proof (cases "visitNeighbors addr hp pt ef (neighbors (hp ! snd currPair) ! level) c t v lb")
          case None
          with n1 n2 n3 vc show ?thesis by simp
        next
          case (Some x)
          obtain c' t' v' lb' where x: "x = (c', t', v', lb')" by (cases x) auto
          from Some x have vis: "visitNeighbors addr hp pt ef (neighbors (hp ! snd currPair) ! level) c t v lb
              = Some (c', t', v', lb')" by simp
          from "2.IH"[OF n1 n2 n3 vis refl refl refl "2.prems"]
          have "searchLoop addr hp pt level ef c' t' v' lb' = searchLoop addr2 hp pt level ef c' t' v' lb'" .
          with n1 n2 n3 vis vc show ?thesis by simp
        qed
      qed
    qed
  qed
qed

lemma searchLayer_cong:
  assumes "pair_lt addr1 = pair_lt addr2"
  shows "searchLayer addr1 hp pt ep level ef = searchLayer addr2 hp pt ep level ef"
  by (simp only: searchLayer_def assms pair_gt_cong[OF assms] searchLoop_cong[OF assms]
        cong: if_cong option.case_cong)

lemma descend_cong:
  "pair_lt addr = pair_lt addr2 \<Longrightarrow>
   descend addr hp pt ep level bound = descend addr2 hp pt ep level bound"
proof (induction addr hp pt ep level bound rule: descend.induct)
  case (1 addr hp pt ep level bound)
  note sc = searchLayer_cong[OF "1.prems", of hp pt ep level 1]
  show ?case
  proof (cases "bound < level")
    case False
    then show ?thesis by (simp add: descend.simps)
  next
    case True
    show ?thesis
    proof (cases "searchLayer addr hp pt ep level 1")
      case None
      with True sc show ?thesis by (simp add: descend.simps)
    next
      case (Some topC)
      show ?thesis
      proof (cases topC)
        case Nil
        with True Some sc show ?thesis by (simp add: descend.simps)
      next
        case (Cons x xs)
        from "1.IH"[OF True Some Cons "1.prems"] True Some Cons sc show ?thesis
          by (simp add: descend.simps[of addr hp pt ep] descend.simps[of addr2 hp pt ep])
      qed
    qed
  qed
qed

lemma linkLayers_cong:
  "pair_lt addr = pair_lt addr2 \<Longrightarrow>
   linkLayers addr hp m efc a ep l = linkLayers addr2 hp m efc a ep l"
proof (induction addr hp m efc a ep l rule: linkLayers.induct)
  case (1 addr hp m efc a ep l)
  note sc = searchLayer_cong[OF "1.prems", of hp "point (hp ! a)" ep l efc]
  show ?case
  proof (cases "0 \<le> l")
    case False
    then show ?thesis by (simp add: linkLayers.simps)
  next
    case True
    show ?thesis
    proof (cases "searchLayer addr hp (point (hp ! a)) ep l efc")
      case None
      with True sc show ?thesis by (simp add: linkLayers.simps)
    next
      case (Some topC)
      show ?thesis
      proof (cases "selectNeighbors hp m a topC l")
        case None
        with True Some sc show ?thesis by (simp add: linkLayers.simps)
      next
        case (Some hp1)
        from "1.IH"[OF True \<open>searchLayer addr hp (point (hp ! a)) ep l efc = Some topC\<close> Some "1.prems"]
          True \<open>searchLayer addr hp (point (hp ! a)) ep l efc = Some topC\<close> Some sc
        show ?thesis
          by (simp add: linkLayers.simps[of addr hp] linkLayers.simps[of addr2 hp])
      qed
    qed
  qed
qed

lemma insertNode_cong:
  assumes "pair_lt addr1 = pair_lt addr2"
  shows "insertNode addr1 h a = insertNode addr2 h a"
  by (simp only: insertNode_def descend_cong[OF assms] linkLayers_cong[OF assms])

lemma insert_point_cong:
  assumes "pair_lt addr1 = pair_lt addr2"
  shows "insert_point addr1 draw h pt = insert_point addr2 draw h pt"
  by (simp only: insert_point_def insertNode_cong[OF assms])

lemma insert_all_cong:
  assumes "pair_lt addr1 = pair_lt addr2"
  shows "insert_all addr1 draw h pts = insert_all addr2 draw h pts"
proof (induction pts arbitrary: h)
  case Nil
  show ?case by simp
next
  case (Cons pt pts)
  show ?case
    by (simp only: insert_all.simps insert_point_cong[OF assms] Cons.IH cong: option.case_cong)
qed

lemma search_cong:
  assumes "pair_lt addr1 = pair_lt addr2"
  shows "search addr1 h q k = search addr2 h q k"
  by (simp only: search_def descend_cong[OF assms] searchLayer_cong[OF assms])


section \<open>Evaluation of concrete runs\<close>

lemmas ev = addr_up_def addr_down_def addr_shift_def draw_levels_def Point_ctor_def insert_point_def getRandomLevel_def new_Node_def
  insertNode_def float_to_int_def HNSW_ctor_def descend.simps linkLayers.simps searchLayer_def
  selectNeighbors_def push_neighbor_def euclideanDistance_def size_t_def pair_lt_def pair_gt_def
  search_def

lemma sqrt_25: "sqrt 25 = 5"
  by (rule real_sqrt_unique) simp_all

lemma index_E_built:
  "insert_all addr_up draw_levels (HNSW_ctor [0, 0] 1 200 0) [Point_ctor [1] ''E''] = Some index_E"
  by (simp add: ev index_E_def)

lemma insert_A_index_E:
  "insert_point addr_up draw_levels index_E (Point_ctor [5] ''A'') = Some index_EA"
  by (simp add: ev index_E_def index_EA_def)

lemma index_EA_built:
  "insert_all addr_up draw_levels (HNSW_ctor [0, 0] 1 200 0) [Point_ctor [1] ''E'', Point_ctor [5] ''A''] = Some index_EA"
  by (simp add: ev index_EA_def)

lemma search_index_EA:
  "search addr_up index_EA (Point_ctor [0] ''Q'') 2 = Some [Point_ctor [5] ''A'', Point_ctor [1] ''E'']"
  by (simp add: ev index_EA_def)

lemma index_EAC_built:
  "insert_all addr_up draw_levels (HNSW_ctor [0, 0, 0] 1 200 0) [Point_ctor [1] ''E'', Point_ctor [5] ''A'', Point_ctor [0] ''C''] = Some index_EAC"
  by (simp add: ev index_EAC_def)

lemma index_PP_built:
  "insert_all addr_up draw_levels (HNSW_ctor [0, 0] 4 200 0) [Point_ctor [2] ''P'', Point_ctor [2] ''P''] = Some index_PP"
  by (simp add: ev index_PP_def)

lemma index_A4_built:
  "insert_all addr_up draw_levels (HNSW_ctor [0, 0] 4 200 0) [Point_ctor [1, 2, 3, 4] ''A''] = Some index_A4"
  by (simp add: ev index_A4_def)

lemma insert_X_index_A4:
  "insert_point addr_up draw_levels index_A4 (Point_ctor [1, 2] ''X'') = Some index_A4X"
  by (simp add: ev index_A4_def index_A4X_def)

lemma index_L01_built:
  "insert_all addr_up draw_levels (HNSW_ctor [0, 1] 4 200 1) [Point_ctor [1] ''E'', Point_ctor [5] ''A''] = Some index_L01"
  by (simp add: ev index_L01_def numeral_2_eq_2)

lemma index_L2_built:
  "insert_all addr_up draw_levels (HNSW_ctor [2] 4 200 1) [Point_ctor [1] ''E''] = Some index_L2"
  by (simp add: ev index_L2_def numeral_3_eq_3)

section \<open>The claims\<close>

text \<open>
  C1 (as stated): the sequence returned by \<open>search(q, k)\<close> is sorted ascending by distance
  to \<open>q\<close>.  It is not: \<open>search\<close> drains the max-queue from the top, farthest first.  On the
  index holding \<open>E = (1)\<close> and \<open>A = (5)\<close>, the query \<open>(0)\<close> with \<open>k = 2\<close> returns \<open>[A, E]\<close>,
  at distances 5 and 1.
\<close>

theorem search_ascending_counterexample:
  "insert_all addr_up draw_levels (HNSW_ctor [0, 0] 1 200 0) [Point_ctor [1] ''E'', Point_ctor [5] ''A''] = Some index_EA \<and>
   search addr_up index_EA (Point_ctor [0] ''Q'') 2 = Some [Point_ctor [5] ''A'', Point_ctor [1] ''E''] \<and>
   euclideanDistance (Point_ctor [0] ''Q'') ([Point_ctor [5] ''A'', Point_ctor [1] ''E''] ! 0) = Some 5 \<and>
   euclideanDistance (Point_ctor [0] ''Q'') ([Point_ctor [5] ''A'', Point_ctor [1] ''E''] ! 1) = Some 1 \<and>
   \<not> (5 :: real) \<le> 1"
proof -
  have "euclideanDistance (Point_ctor [0] ''Q'') (Point_ctor [5] ''A'') = Some 5"
    and "euclideanDistance (Point_ctor [0] ''Q'') (Point_ctor [1] ''E'') = Some 1"
    by (simp_all add: euclideanDistance_def Point_ctor_def sqrt_25)
  with index_EA_built search_index_EA show ?thesis by simp
qed

text \<open>
  C1 (amended): for every index, every query \<open>q\<close> and every \<open>k\<close>, the sequence returned by
  \<open>search(q, k)\<close> is sorted descending by Euclidean distance to \<open>q\<close>: for all valid \<open>i\<close>,
  \<open>distance(q, result[i]) \<ge> distance(q, result[i+1])\<close>.
\<close>

theorem search_descending:
  assumes "search addr h query k = Some results" and "Suc i < length results"
  shows "\<exists>d d'. euclideanDistance query (results ! i) = Some d \<and>
                 euclideanDistance query (results ! Suc i) = Some d' \<and> d' \<le> d"
proof (cases "nodes h = []")
  case True
  with assms show ?thesis by (simp add: search_def)
next
  case False
  with assms(1) obtain ep r where
    sl: "searchLayer addr (heap h) query ep 0 k = Some r"
    and res: "results = map (\<lambda>t. point (heap h ! snd t)) r"
    by (auto simp: search_def split: option.splits)
  from assms(2) res have i: "Suc i < length r" by simp
  from searchLayer_results(1)[OF sl] have
    "\<forall>j < length r. euclideanDistance query (point (heap h ! snd (r ! j))) = Some (fst (r ! j))"
    by (metis (no_types, lifting) nth_map)
  with i res have d: "euclideanDistance query (results ! i) = Some (fst (r ! i))"
    and d': "euclideanDistance query (results ! Suc i) = Some (fst (r ! Suc i))"
    by auto
  from searchLayer_results(2)[OF sl] i have "fst (r ! Suc i) \<le> fst (r ! i)"
    by (simp add: sorted_wrt_iff_nth_less)
  with d d' show ?thesis by blast
qed

theorem search_descending_witness:
  "search addr_up index_EA (Point_ctor [0] ''Q'') 2 = Some [Point_ctor [5] ''A'', Point_ctor [1] ''E''] \<and>
   Suc 0 < length [Point_ctor [5] ''A'', Point_ctor [1] ''E''] \<and>
   (\<exists>d d'. euclideanDistance (Point_ctor [0] ''Q'') ([Point_ctor [5] ''A'', Point_ctor [1] ''E''] ! 0) = Some d \<and>
            euclideanDistance (Point_ctor [0] ''Q'') ([Point_ctor [5] ''A'', Point_ctor [1] ''E''] ! Suc 0) = Some d' \<and>
            d' \<le> d)"
proof -
  have s: "search addr_up index_EA (Point_ctor [0] ''Q'') 2 = Some [Point_ctor [5] ''A'', Point_ctor [1] ''E'']"
    by (rule search_index_EA)
  have l: "Suc 0 < length [Point_ctor [5] ''A'', Point_ctor [1] ''E'']" by simp
  from search_descending[OF s l] s l show ?thesis by blast
qed

text \<open>
  C2: the neighbours chosen for the new node are the closest candidates: no selected
  candidate is farther from the new point than an unselected one.  The code does not do
  this.  \<open>selectNeighbors\<close> pops the candidates from the top of the max-queue, so with more
  candidates than \<open>maxNeighbors\<close> it keeps the farthest.  With \<open>maxNeighbors = 1\<close>, when
  \<open>C = (0)\<close> is inserted after \<open>E = (1)\<close> and \<open>A = (5)\<close> the candidates are \<open>A\<close> at distance
  5 and \<open>E\<close> at distance 1, and \<open>C\<close> is linked to \<open>A\<close> (node 1) alone.
\<close>

theorem selectNeighbors_keeps_farthest:
  "insert_all addr_up draw_levels (HNSW_ctor [0, 0, 0] 1 200 0) [Point_ctor [1] ''E'', Point_ctor [5] ''A'', Point_ctor [0] ''C''] = Some index_EAC \<and>
   searchLayer addr_up (heap index_EA @ [\<lparr>point = Point_ctor [0] ''C'', neighbors = [[]]\<rparr>]) (Point_ctor [0] ''C'') 0 0 200
     = Some [(5, 1), (1, 0)] \<and>
   pickNeighbors (size_t 1) [(5, 1), (1, 0)] [] {} = [1] \<and>
   neighbors (heap index_EAC ! 2) = [[1]]"
proof -
  have "searchLayer addr_up (heap index_EA @ [\<lparr>point = Point_ctor [0] ''C'', neighbors = [[]]\<rparr>]) (Point_ctor [0] ''C'') 0 0 200
     = Some [(5, 1), (1, 0)]"
    by (simp add: ev index_EA_def sqrt_25)
  moreover have "pickNeighbors (size_t 1) [(5, 1), (1, 0)] [] {} = [1]"
    by (simp add: size_t_def)
  moreover have "neighbors (heap index_EAC ! 2) = [[1]]"
    by (simp add: index_EAC_def)
  ultimately show ?thesis using index_EAC_built by simp
qed

text \<open>
  C3 (as stated): for \<open>k \<ge> 0\<close>, \<open>search(q, k)\<close> returns exactly \<open>min(k, N)\<close> results.  It does
  not: the layer search seeds its result with the entry point before it looks at \<open>ef\<close>, so
  on the index holding the single point \<open>E\<close> the call with \<open>k = 0\<close> returns one result, not
  \<open>min(0, 1) = 0\<close>.
\<close>

theorem search_size_counterexample:
  "insert_all addr_up draw_levels (HNSW_ctor [0, 0] 1 200 0) [Point_ctor [1] ''E''] = Some index_E \<and>
   search addr_up index_E (Point_ctor [0] ''Q'') 0 = Some [Point_ctor [1] ''E''] \<and>
   length [Point_ctor [1] ''E''] \<noteq> min (nat 0) (length [Point_ctor [1] ''E''])"
proof -
  have "search addr_up index_E (Point_ctor [0] ''Q'') 0 = Some [Point_ctor [1] ''E'']"
    by (simp add: ev index_E_def)
  with index_E_built show ?thesis by simp
qed

text \<open>
  C3 (amended): on an index built by inserting \<open>N\<close> points, for every query and every
  \<open>k \<ge> 0\<close>, a call of \<open>search(q, k)\<close> that returns gives at most \<open>min(max(k, 1), N)\<close> results,
  and at least one when \<open>N > 0\<close>; on a freshly constructed index it returns the empty
  sequence for any \<open>k\<close>.
\<close>

theorem search_result_size:
  assumes "insert_all addr draw (HNSW_ctor engine maxNbrs efConstr mult) pts = Some h"
    and "search addr h query k = Some results" and "0 \<le> k"
  shows "length results \<le> min (max (nat k) 1) (length pts) \<and>
         (pts \<noteq> [] \<longrightarrow> 1 \<le> length results) \<and>
         (\<forall>k'. search addr (HNSW_ctor engine maxNbrs efConstr mult) query k' = Some [])"
proof -
  note b = built_index[OF assms(1)]
  have empty: "\<forall>k'. search addr (HNSW_ctor engine maxNbrs efConstr mult) query k' = Some []"
    by (simp add: search_def HNSW_ctor_def)
  show ?thesis
  proof (cases "pts = []")
    case True
    with b(1) assms(2) have "results = []" by (simp add: search_def)
    with True empty show ?thesis by simp
  next
    case False
    with b(1) have "nodes h \<noteq> []" by simp
    with assms(2) obtain ep r where
      sl: "searchLayer addr (heap h) query ep 0 k = Some r"
      and res: "results = map (\<lambda>t. point (heap h ! snd t)) r"
      by (auto simp: search_def split: option.splits)
    note p = searchLayer_results[OF sl]
    have "size_t k \<le> nat k"
      using assms(3) by (simp add: size_t_def nat_le_iff zmod_le_nonneg_dividend)
    with p(4) have "length r \<le> max (nat k) 1" by simp
    moreover from p(3) have "1 \<le> length r" by (cases r) simp_all
    ultimately show ?thesis using p(5) b(3) res empty by simp
  qed
qed

theorem search_result_size_witness:
  "insert_all addr_up draw_levels (HNSW_ctor [0, 0] 1 200 0) [Point_ctor [1] ''E'', Point_ctor [5] ''A''] = Some index_EA \<and>
   search addr_up index_EA (Point_ctor [0] ''Q'') 2 = Some [Point_ctor [5] ''A'', Point_ctor [1] ''E''] \<and> (0 :: int) \<le> 2 \<and>
   length [Point_ctor [5] ''A'', Point_ctor [1] ''E''] \<le> min (max (nat 2) 1) (length [Point_ctor [1] ''E'', Point_ctor [5] ''A'']) \<and>
   [Point_ctor [1] ''E'', Point_ctor [5] ''A''] \<noteq> [] \<and> 1 \<le> length [Point_ctor [5] ''A'', Point_ctor [1] ''E''] \<and>
   search addr_up (HNSW_ctor ([0, 0] :: int list) 1 200 0) (Point_ctor [0] ''Q'') 2 = Some []"
proof -
  have k: "(0 :: int) \<le> 2" by simp
  from search_result_size[OF index_EA_built search_index_EA k] index_EA_built search_index_EA
  show ?thesis by simp
qed

text \<open>
  C4 (as stated): on an index holding points of dimension \<open>D\<close>, \<open>insert\<close> of a point whose
  vector length differs from \<open>D\<close> fails with \<open>DimensionMismatch\<close> and leaves the Graph Store
  unchanged.  The code has no such check: on the index holding \<open>A = (1, 2, 3, 4)\<close>, the
  call \<open>insert(X = (1, 2))\<close> returns, the store holds two nodes, and \<open>A\<close> and \<open>X\<close> are linked
  at layer 0.
\<close>

theorem insert_mismatch_counterexample:
  "insert_all addr_up draw_levels (HNSW_ctor [0, 0] 4 200 0) [Point_ctor [1, 2, 3, 4] ''A''] = Some index_A4 \<and>
   length (coordinates (Point_ctor [1, 2] ''X'')) \<noteq> length (coordinates (Point_ctor [1, 2, 3, 4] ''A'')) \<and>
   insert_point addr_up draw_levels index_A4 (Point_ctor [1, 2] ''X'') = Some index_A4X \<and>
   length (nodes index_A4) = 1 \<and> length (nodes index_A4X) = 2 \<and>
   neighbors (heap index_A4 ! 0) = [[]] \<and> neighbors (heap index_A4X ! 0) = [[1]]"
proof -
  have "length (coordinates (Point_ctor [1, 2] ''X'')) \<noteq> length (coordinates (Point_ctor [1, 2, 3, 4] ''A''))"
    by (simp add: Point_ctor_def)
  moreover have "length (nodes index_A4) = 1 \<and> length (nodes index_A4X) = 2 \<and>
      neighbors (heap index_A4 ! 0) = [[]] \<and> neighbors (heap index_A4X ! 0) = [[1]]"
    by (simp add: index_A4_def index_A4X_def)
  ultimately show ?thesis using index_A4_built insert_X_index_A4 by simp
qed

text \<open>
  C4 (amended): \<open>insert\<close> performs no check of the vector length and never fails with
  \<open>DimensionMismatch\<close>.  On an index that already holds points, a point whose vector is
  longer than the vector of the first inserted point makes the distance loop read past the
  end of that vector (undefined behaviour: the call returns nothing), and every call that
  returns, whatever the length of the vector, has added the point as a new node of the
  Graph Store.
\<close>

theorem insert_no_dimension_check:
  assumes "insert_all addr draw (HNSW_ctor engine maxNbrs efConstr mult) pts = Some h"
    and "pts \<noteq> []"
  shows "(length (coordinates (hd pts)) < length (coordinates pt) \<longrightarrow>
            insert_point addr draw h pt = None) \<and>
         (\<forall>h'. insert_point addr draw h pt = Some h' \<longrightarrow>
            nodes h' = nodes h @ [length pts] \<and> map point (heap h') = pts @ [pt])"
proof (intro conjI impI allI)
  note b = built_index[OF assms(1)]
  fix h' assume "insert_point addr draw h pt = Some h'"
  from insert_point_Some(1,3)[OF this] b(2,3)
  show "nodes h' = nodes h @ [length pts]" and "map point (heap h') = pts @ [pt]"
    by simp_all
next
  note b = built_index[OF assms(1)]
  assume long: "length (coordinates (hd pts)) < length (coordinates pt)"
  show "insert_point addr draw h pt = None"
  proof (rule ccontr)
    assume "insert_point addr draw h pt \<noteq> None"
    then obtain h' where "insert_point addr draw h pt = Some h'" by blast
    then obtain level where
      ins: "insertNode addr (h\<lparr>generator := snd (draw (generator h)),
          heap := heap h @ [\<lparr>point = pt, neighbors = replicate (nat (level + 1)) []\<rparr>]\<rparr>)
        (length (heap h)) = Some h'"
      by (rule insert_point_unfold)
    define hp where "hp = heap h @ [\<lparr>point = pt, neighbors = replicate (nat (level + 1)) []\<rparr>]"
    have ne: "nodes h \<noteq> []" and hd: "hd (nodes h) = 0"
      using b(1) assms(2) by (simp_all add: upt_conv_Cons)
    have "heap h \<noteq> []" using b(3) assms(2) by auto
    then have "point (hp ! 0) = point (heap h ! 0)" by (simp add: hp_def nth_append)
    also have "\<dots> = hd pts" using b(2) \<open>heap h \<noteq> []\<close> by (metis hd_conv_nth hd_map list.map_disc_iff)
    finally have p0: "point (hp ! 0) = hd pts" .
    have pa: "point (hp ! length (heap h)) = pt" by (simp add: hp_def)
    have none: "searchLayer addr hp pt 0 lv ef = None" for lv ef
      by (rule searchLayer_too_long) (simp add: p0 long)
    from ins ne hd obtain ep lv hp' where
      de: "descend addr hp pt 0 (maxLevel h) (int (length (neighbors (hp ! length (heap h)))) - 1) = Some (ep, lv)"
      and ll: "linkLayers addr hp (maxNeighbors h) (efConstruction h) (length (heap h)) ep lv = Some hp'"
      by (auto simp: insertNode_def hp_def[symmetric] pa split: if_splits option.splits)
    from de none have "ep = 0" and "lv = maxLevel h"
      by (subst (asm) descend.simps; simp split: if_splits)+
    with ll b(7) none pa show False
      by (subst (asm) linkLayers.simps) simp
  qed
qed

theorem insert_no_dimension_check_witness:
  "insert_all addr_up draw_levels (HNSW_ctor [0, 0] 4 200 0) [Point_ctor [1, 2, 3, 4] ''A''] = Some index_A4 \<and>
   [Point_ctor [1, 2, 3, 4] ''A''] \<noteq> [] \<and>
   length (coordinates (hd [Point_ctor [1, 2, 3, 4] ''A''])) < length (coordinates (Point_ctor [1, 2, 3, 4, 5] ''Y'')) \<and>
   insert_point addr_up draw_levels index_A4 (Point_ctor [1, 2, 3, 4, 5] ''Y'') = None \<and>
   insert_point addr_up draw_levels index_A4 (Point_ctor [1, 2] ''X'') = Some index_A4X \<and>
   nodes index_A4X = nodes index_A4 @ [length [Point_ctor [1, 2, 3, 4] ''A'']] \<and>
   map point (heap index_A4X) = [Point_ctor [1, 2, 3, 4] ''A''] @ [Point_ctor [1, 2] ''X'']"
proof -
  have ne: "[Point_ctor [1, 2, 3, 4] ''A''] \<noteq> []" by simp
  have long: "length (coordinates (hd [Point_ctor [1, 2, 3, 4] ''A''])) < length (coordinates (Point_ctor [1, 2, 3, 4, 5] ''Y''))"
    by (simp add: Point_ctor_def)
  from insert_no_dimension_check[OF index_A4_built ne, of "Point_ctor [1, 2, 3, 4, 5] ''Y''"] long
  have "insert_point addr_up draw_levels index_A4 (Point_ctor [1, 2, 3, 4, 5] ''Y'') = None" by blast
  moreover from insert_no_dimension_check[OF index_A4_built ne, of "Point_ctor [1, 2] ''X''"] insert_X_index_A4
  have "nodes index_A4X = nodes index_A4 @ [length [Point_ctor [1, 2, 3, 4] ''A'']] \<and>
      map point (heap index_A4X) = [Point_ctor [1, 2, 3, 4] ''A''] @ [Point_ctor [1, 2] ''X'']" by blast
  ultimately show ?thesis using index_A4_built insert_X_index_A4 ne long by blast
qed

text \<open>
  C5: after any finite sequence of insertions (that return), the edge relation is
  symmetric at every layer: \<open>b\<close> is in the layer-\<open>l\<close> neighbour set of \<open>a\<close> if and only if
  \<open>a\<close> is in the layer-\<open>l\<close> neighbour set of \<open>b\<close>.
\<close>

theorem edges_symmetric:
  assumes "insert_all addr draw (HNSW_ctor engine maxNbrs efConstr mult) pts = Some h"
  shows "b \<in> neighborSet (heap h) a l \<longleftrightarrow> a \<in> neighborSet (heap h) b l"
proof -
  have "symmetric (heap (HNSW_ctor engine maxNbrs efConstr mult))"
    by (simp add: symmetric_def neighborSet_def HNSW_ctor_def)
  from insert_all_symmetric[OF this assms] show ?thesis
    unfolding symmetric_def by blast
qed

theorem edges_symmetric_witness:
  "insert_all addr_up draw_levels (HNSW_ctor [0, 0, 0] 1 200 0) [Point_ctor [1] ''E'', Point_ctor [5] ''A'', Point_ctor [0] ''C''] = Some index_EAC \<and>
   (2 \<in> neighborSet (heap index_EAC) 1 0 \<longleftrightarrow> 1 \<in> neighborSet (heap index_EAC) 2 0) \<and>
   2 \<in> neighborSet (heap index_EAC) 1 0"
proof -
  have "2 \<in> neighborSet (heap index_EAC) 1 0"
    by (simp add: neighborSet_def index_EAC_def)
  with edges_symmetric[OF index_EAC_built, of 2 1 0] index_EAC_built show ?thesis by blast
qed

text \<open>
  C6: the layer search stops by the convergence test only when the popped candidate is
  farther than the current worst result and the result already holds \<open>ef\<close> items.  The
  code does not do this.  It tests \<open>dist > lowerBound\<close>, and \<open>lowerBound\<close> is the distance of
  the entry point until the first eviction.  On the index holding \<open>E = (1)\<close>, \<open>A = (5)\<close> and
  \<open>C = (0)\<close> with the edges \<open>E - A\<close> and \<open>A - C\<close>, the search for \<open>(0)\<close> with \<open>ef = 3\<close> visits
  the neighbour \<open>A\<close> of \<open>E\<close>, then pops \<open>(5, A)\<close> and stops because \<open>5 > 1\<close>: the result holds
  two items, the worst of them at distance 5, and \<open>C\<close>, a neighbour of \<open>A\<close> at distance 0,
  is never visited.
\<close>

theorem searchLayer_stops_early:
  "insert_all addr_up draw_levels (HNSW_ctor [0, 0, 0] 1 200 0) [Point_ctor [1] ''E'', Point_ctor [5] ''A'', Point_ctor [0] ''C''] = Some index_EAC \<and>
   visitNeighbors addr_up (heap index_EAC) (Point_ctor [0] ''Q'') 3 (neighbors (heap index_EAC ! 0) ! 0)
       [] [(1, 0)] {0} 1
     = Some ([(5, 1)], [(5, 1), (1, 0)], {0, 1}, 1) \<and>
   searchLoop addr_up (heap index_EAC) (Point_ctor [0] ''Q'') 0 3 [(5, 1)] [(5, 1), (1, 0)] {0, 1} 1
     = Some [(5, 1), (1, 0)] \<and>
   searchLayer addr_up (heap index_EAC) (Point_ctor [0] ''Q'') 0 0 3 = Some [(5, 1), (1, 0)] \<and>
   length [(5 :: real, 1 :: nat), (1, 0)] < 3 \<and>
   2 \<in> neighborSet (heap index_EAC) 1 0 \<and>
   euclideanDistance (Point_ctor [0] ''Q'') (point (heap index_EAC ! 2)) = Some 0 \<and>
   search addr_up index_EAC (Point_ctor [0] ''Q'') 3 = Some [Point_ctor [5] ''A'', Point_ctor [1] ''E'']"
proof -
  have "visitNeighbors addr_up (heap index_EAC) (Point_ctor [0] ''Q'') 3 (neighbors (heap index_EAC ! 0) ! 0)
       [] [(1, 0)] {0} 1
     = Some ([(5, 1)], [(5, 1), (1, 0)], {0, 1}, 1)"
    by (simp add: ev index_EAC_def sqrt_25 insert_commute)
  moreover have "searchLoop addr_up (heap index_EAC) (Point_ctor [0] ''Q'') 0 3 [(5, 1)] [(5, 1), (1, 0)] {0, 1} 1
     = Some [(5, 1), (1, 0)]"
    by simp
  moreover have "searchLayer addr_up (heap index_EAC) (Point_ctor [0] ''Q'') 0 0 3 = Some [(5, 1), (1, 0)]"
    by (simp add: ev index_EAC_def sqrt_25)
  moreover have "2 \<in> neighborSet (heap index_EAC) 1 0"
    by (simp add: neighborSet_def index_EAC_def)
  moreover have "euclideanDistance (Point_ctor [0] ''Q'') (point (heap index_EAC ! 2)) = Some 0"
    by (simp add: ev index_EAC_def)
  moreover have "search addr_up index_EAC (Point_ctor [0] ''Q'') 3 = Some [Point_ctor [5] ''A'', Point_ctor [1] ''E'']"
    by (simp add: ev index_EAC_def)
  ultimately show ?thesis using index_EAC_built by simp
qed

text \<open>
  C7: after every insertion the stored maximum layer is the maximum of the top layers of
  the nodes, and the entry point of every descent is a node on that layer; a node that
  samples a level above the maximum layer becomes the entry point.  The code does not do
  this.  The entry point is always \<open>graph.nodes[0]\<close>, and the first insertion returns
  before \<open>maxLevel\<close> is updated.  After \<open>insert(E)\<close> on level 0 and \<open>insert(A)\<close> on level 1,
  \<open>maxLevel\<close> is 1 and the entry point is still node 0, whose top layer is 0; the next
  \<open>search\<close> reads \<open>neighbors[1]\<close> of node 0 past the end of the vector.  After a single
  \<open>insert(E)\<close> on level 2, \<open>maxLevel\<close> is still 0.
\<close>

theorem entry_point_below_maxLevel:
  "insert_all addr_up draw_levels (HNSW_ctor [0, 1] 4 200 1) [Point_ctor [1] ''E'', Point_ctor [5] ''A''] = Some index_L01 \<and>
   maxLevel index_L01 = 1 \<and> hd (nodes index_L01) = 0 \<and>
   int (length (neighbors (heap index_L01 ! 0))) - 1 = 0 \<and>
   int (length (neighbors (heap index_L01 ! 1))) - 1 = 1 \<and>
   search addr_up index_L01 (Point_ctor [0] ''Q'') 3 = None \<and>
   insert_all addr_up draw_levels (HNSW_ctor [2] 4 200 1) [Point_ctor [1] ''E''] = Some index_L2 \<and>
   maxLevel index_L2 = 0 \<and>
   int (length (neighbors (heap index_L2 ! 0))) - 1 = 2"
proof -
  have "maxLevel index_L01 = 1 \<and> hd (nodes index_L01) = 0 \<and>
      int (length (neighbors (heap index_L01 ! 0))) - 1 = 0 \<and>
      int (length (neighbors (heap index_L01 ! 1))) - 1 = 1"
    by (simp add: index_L01_def)
  moreover have "search addr_up index_L01 (Point_ctor [0] ''Q'') 3 = None"
    by (simp add: ev index_L01_def)
  moreover have "maxLevel index_L2 = 0 \<and> int (length (neighbors (heap index_L2 ! 0))) - 1 = 2"
    by (simp add: index_L2_def)
  ultimately show ?thesis using index_L01_built index_L2_built by simp
qed

text \<open>
  C8: immediately after the insertion that creates a node, the neighbour list of that
  node at every layer holds at most \<open>maxNeighbors\<close> entries (for a bound
  \<open>maxNeighbors \<ge> 0\<close>; the node created by the call after the insertions of \<open>pts\<close> is
  node \<open>length pts\<close>).
\<close>

theorem new_node_degree_bound:
  assumes "insert_all addr draw (HNSW_ctor engine maxNbrs efConstr mult) pts = Some h"
    and "insert_point addr draw h pt = Some h'"
    and "0 \<le> maxNbrs"
    and "l < length (neighbors (heap h' ! length pts))"
  shows "length (neighbors (heap h' ! length pts) ! l) \<le> nat maxNbrs"
proof -
  note b = built_index[OF assms(1)]
  from assms(2) obtain level where lv: "0 \<le> level + 1" "level < 2 ^ 31"
    and ins: "insertNode addr (h\<lparr>generator := snd (draw (generator h)),
        heap := heap h @ [\<lparr>point = pt, neighbors = replicate (nat (level + 1)) []\<rparr>]\<rparr>)
      (length (heap h)) = Some h'"
    by (rule insert_point_unfold)
  let ?h2 = "h\<lparr>generator := snd (draw (generator h)),
        heap := heap h @ [\<lparr>point = pt, neighbors = replicate (nat (level + 1)) []\<rparr>]\<rparr>"
  have sym: "symmetric (heap ?h2)"
    using b(8) by (simp add: symmetric_def neighborSet_new_Node)
  have fresh: "length (heap h) \<notin> set (nodes ?h2)" using b(1,3) by simp
  have iso: "\<forall>j. neighborSet (heap ?h2) (length (heap h)) j = {}"
    by (simp add: neighborSet_new_Node) (simp add: neighborSet_def)
  have small: "int (length (neighbors (heap ?h2 ! length (heap h)))) \<le> 2 ^ 64"
    using lv by simp
  from insertNode_degree[OF ins sym fresh iso small] assms(4) b(3,4)
  have "length (neighbors (heap h' ! length pts) ! l) \<le> size_t maxNbrs" by simp
  also have "size_t maxNbrs \<le> nat maxNbrs"
    using assms(3) by (simp add: size_t_def nat_le_iff zmod_le_nonneg_dividend)
  finally show ?thesis .
qed

theorem new_node_degree_bound_witness:
  "insert_all addr_up draw_levels (HNSW_ctor [0, 0] 1 200 0) [Point_ctor [1] ''E''] = Some index_E \<and>
   insert_point addr_up draw_levels index_E (Point_ctor [5] ''A'') = Some index_EA \<and> (0 :: int) \<le> 1 \<and>
   0 < length (neighbors (heap index_EA ! length [Point_ctor [1] ''E''])) \<and>
   length (neighbors (heap index_EA ! length [Point_ctor [1] ''E'']) ! 0) \<le> nat 1"
proof -
  have m: "(0 :: int) \<le> 1" by simp
  have l: "0 < length (neighbors (heap index_EA ! length [Point_ctor [1] ''E'']))"
    by (simp add: index_EA_def)
  from new_node_degree_bound[OF index_E_built insert_A_index_E m l]
    index_E_built insert_A_index_E m l
  show ?thesis by blast
qed

text \<open>
  C9 (as stated): two instances built with the same configuration and the same insertion
  sequence build identical graphs and return identical results for every search.  They
  need not: the queues hold pairs of a distance and a node pointer, and candidates at the
  same distance are ordered by the addresses that \<open>new\<close> returned.  \<open>HNSW(4, 200, 0.0)\<close> after
  \<open>insert(A = (5))\<close>, \<open>insert(B = (-5))\<close>, \<open>insert(E = (1))\<close> is the same index under both
  allocators, but \<open>search((0), 2)\<close> evicts \<open>B\<close> when the addresses ascend and \<open>A\<close> when they
  descend: one run returns \<open>[A, E]\<close>, the other \<open>[B, E]\<close>.
\<close>

theorem runs_deterministic_counterexample:
  "insert_all addr_up draw_levels (HNSW_ctor [0, 0, 0] 4 200 0) [Point_ctor [5] ''A'', Point_ctor [- 5] ''B'', Point_ctor [1] ''E''] = Some index_ABE \<and>
   insert_all addr_down draw_levels (HNSW_ctor [0, 0, 0] 4 200 0) [Point_ctor [5] ''A'', Point_ctor [- 5] ''B'', Point_ctor [1] ''E''] = Some index_ABE \<and>
   search addr_up index_ABE (Point_ctor [0] ''Q'') 2 = Some [Point_ctor [5] ''A'', Point_ctor [1] ''E''] \<and>
   search addr_down index_ABE (Point_ctor [0] ''Q'') 2 = Some [Point_ctor [- 5] ''B'', Point_ctor [1] ''E''] \<and>
   [Point_ctor [5] ''A'', Point_ctor [1] ''E''] \<noteq> [Point_ctor [- 5] ''B'', Point_ctor [1] ''E'']"
proof -
  have "insert_all addr_up draw_levels (HNSW_ctor [0, 0, 0] 4 200 0) [Point_ctor [5] ''A'', Point_ctor [- 5] ''B'', Point_ctor [1] ''E''] = Some index_ABE"
    by (simp add: ev index_ABE_def)
  moreover have
    "insert_all addr_down draw_levels (HNSW_ctor [0, 0, 0] 4 200 0) [Point_ctor [5] ''A'', Point_ctor [- 5] ''B'', Point_ctor [1] ''E''] = Some index_ABE"
    by (simp add: ev index_ABE_def)
  moreover have "search addr_up index_ABE (Point_ctor [0] ''Q'') 2 = Some [Point_ctor [5] ''A'', Point_ctor [1] ''E'']"
    by (simp add: ev index_ABE_def)
  moreover have "search addr_down index_ABE (Point_ctor [0] ''Q'') 2 = Some [Point_ctor [- 5] ''B'', Point_ctor [1] ''E'']"
    by (simp add: ev index_ABE_def)
  moreover have "[Point_ctor [5] ''A'', Point_ctor [1] ''E''] \<noteq> [Point_ctor [- 5] ''B'', Point_ctor [1] ''E'']"
    by (simp add: Point_ctor_def)
  ultimately show ?thesis by blast
qed

text \<open>
  C9 (amended): the constructor takes no seed and the engine starts in its default state,
  so two instances sample identical levels: the levels of the nodes and the state of the
  engine depend on the level multiplier and on the number of insertions only, whatever
  the allocator, the points, \<open>maxNeighbors\<close> and \<open>efConstruction\<close>.  Two instances built
  with the same configuration and the same insertion sequence build identical graphs and
  return identical results for every search when their allocators order the addresses of
  the nodes alike.
\<close>

theorem runs_agree_for_same_address_order:
  assumes "insert_all addr1 draw (HNSW_ctor engine m1 ef1 mult) pts1 = Some h1"
    and "insert_all addr2 draw (HNSW_ctor engine m2 ef2 mult) pts2 = Some h2"
    and "length pts1 = length pts2"
  shows "levels_of h1 = levels_of h2 \<and> generator h1 = generator h2 \<and>
         ((\<forall>m n. addr1 m < addr1 n \<longleftrightarrow> addr2 m < addr2 n) \<and>
          m1 = m2 \<and> ef1 = ef2 \<and> pts1 = pts2 \<longrightarrow>
            h1 = h2 \<and> search addr1 h1 query k = search addr2 h2 query k)"
proof -
  have "generator h1 = generator h2 \<and> levels_of h1 = levels_of h2"
    by (rule levels_two_runs[OF assms(3) _ _ _ assms(1,2)])
       (simp_all add: HNSW_ctor_def levels_of_def)
  moreover have "h1 = h2 \<and> search addr1 h1 query k = search addr2 h2 query k"
    if ord: "\<forall>m n. addr1 m < addr1 n \<longleftrightarrow> addr2 m < addr2 n"
      and same: "m1 = m2 \<and> ef1 = ef2 \<and> pts1 = pts2"
  proof -
    from ord have eq: "pair_lt addr1 = pair_lt addr2" by (rule pair_lt_same_order)
    have "insert_all addr2 draw (HNSW_ctor engine m1 ef1 mult) pts1 = Some h1"
      using assms(1) by (simp only: insert_all_cong[OF eq])
    with assms(2) same have "h1 = h2" by simp
    moreover have "search addr1 h1 query k = search addr2 h1 query k"
      by (rule search_cong[OF eq])
    ultimately show ?thesis by simp
  qed
  ultimately show ?thesis by blast
qed

theorem runs_agree_for_same_address_order_witness:
  "insert_all addr_up draw_levels (HNSW_ctor [0, 0, 0] 4 200 0) [Point_ctor [5] ''A'', Point_ctor [- 5] ''B'', Point_ctor [1] ''E''] = Some index_ABE \<and>
   insert_all addr_shift draw_levels (HNSW_ctor [0, 0, 0] 4 200 0) [Point_ctor [5] ''A'', Point_ctor [- 5] ''B'', Point_ctor [1] ''E'']
     = Some index_ABE \<and>
   length [Point_ctor [5] ''A'', Point_ctor [- 5] ''B'', Point_ctor [1] ''E''] = length [Point_ctor [5] ''A'', Point_ctor [- 5] ''B'', Point_ctor [1] ''E''] \<and>
   (\<forall>m n. addr_up m < addr_up n \<longleftrightarrow> addr_shift m < addr_shift n) \<and>
   levels_of index_ABE = [0, 0, 0] \<and>
   search addr_up index_ABE (Point_ctor [0] ''Q'') 2 = Some [Point_ctor [5] ''A'', Point_ctor [1] ''E''] \<and>
   search addr_shift index_ABE (Point_ctor [0] ''Q'') 2 = Some [Point_ctor [5] ''A'', Point_ctor [1] ''E'']"
proof -
  have up: "insert_all addr_up draw_levels (HNSW_ctor [0, 0, 0] 4 200 0) [Point_ctor [5] ''A'', Point_ctor [- 5] ''B'', Point_ctor [1] ''E'']
      = Some index_ABE"
    by (simp add: ev index_ABE_def)
  have shift: "insert_all addr_shift draw_levels (HNSW_ctor [0, 0, 0] 4 200 0) [Point_ctor [5] ''A'', Point_ctor [- 5] ''B'', Point_ctor [1] ''E'']
      = Some index_ABE"
    by (simp add: ev index_ABE_def)
  have ord: "\<forall>m n. addr_up m < addr_up n \<longleftrightarrow> addr_shift m < addr_shift n"
    by (simp add: addr_up_def addr_shift_def)
  have s: "search addr_up index_ABE (Point_ctor [0] ''Q'') 2 = Some [Point_ctor [5] ''A'', Point_ctor [1] ''E'']"
    by (simp add: ev index_ABE_def)
  have l: "levels_of index_ABE = [0, 0, 0]"
    by (simp add: levels_of_def index_ABE_def)
  from runs_agree_for_same_address_order[OF up shift refl, of "Point_ctor [0] ''Q''" 2] ord
  have "search addr_up index_ABE (Point_ctor [0] ''Q'') 2 = search addr_shift index_ABE (Point_ctor [0] ''Q'') 2" by blast
  with s have "search addr_shift index_ABE (Point_ctor [0] ''Q'') 2 = Some [Point_ctor [5] ''A'', Point_ctor [1] ''E'']" by simp
  with up shift ord s l show ?thesis by simp
qed

text \<open>
  C10: every call of \<open>insert\<close> that returns has appended exactly one node to \<open>graph.nodes\<close>,
  and none removes a node: after the calls for the points \<open>pts\<close> the store holds the nodes
  it held before followed by one new node per call, whose points are \<open>pts\<close> in order.  From
  the constructor that is exactly \<open>length pts\<close> nodes; a point inserted twice gives two
  nodes.
\<close>

theorem insert_appends_one_node:
  assumes "insert_all addr draw h pts = Some h'"
  shows "nodes h' = nodes h @ [length (heap h) ..< length (heap h) + length pts] \<and>
         map point (heap h') = map point (heap h) @ pts"
  using insert_all_Some(1,2)[OF assms] by simp

theorem insert_appends_one_node_witness:
  "insert_all addr_up draw_levels (HNSW_ctor [0, 0] 4 200 0) [Point_ctor [2] ''P'', Point_ctor [2] ''P''] = Some index_PP \<and>
   nodes index_PP = [0, 1] \<and>
   map point (heap index_PP) = [Point_ctor [2] ''P'', Point_ctor [2] ''P'']"
  using insert_appends_one_node[OF index_PP_built] index_PP_built
  by (simp add: HNSW_ctor_def)

end
